theory Spec2Isabelle
  imports Main "HOL-Library.Multiset"
begin

section \<open>Python values\<close>

text \<open>
  A Python \<open>str\<close> is a sequence of Unicode code points, and \<open>len\<close>, \<open>in\<close>, \<open>strip\<close> and
  the regular expressions of \<open>bib2html.py\<close> all work on code points. A string is therefore a
  list of code points (natural numbers); \<open>str\<close> turns an ASCII literal into such a list.
\<close>

type_synonym pystr = "nat list"

definition str :: "string \<Rightarrow> pystr" where
  "str = map of_char"

text \<open>The exceptions that the modelled code can raise.\<close>

datatype error = ValueError | KeyError | OSError | ParseError

text \<open>
  The part of the Python runtime that depends on the Unicode character database, which is
  not part of the repository, is a parameter of the model:
  \<^item> \<open>str_lower\<close> is \<open>str.lower\<close>;
  \<^item> \<open>isdigit_cp c\<close> holds when \<open>str.isdigit\<close> accepts the code point \<open>c\<close>
  (Numeric_Type Digit or Decimal);
  \<^item> \<open>decimal_cp c\<close> is the value of \<open>c\<close> when \<open>int\<close> accepts it as a decimal digit
  (General_Category Nd);
  \<^item> \<open>int_max_str_digits\<close> is \<open>sys.get_int_max_str_digits()\<close>, \<open>0\<close> for no limit.
\<close>

record runtime =
  str_lower :: "pystr \<Rightarrow> pystr"
  isdigit_cp :: "nat \<Rightarrow> bool"
  decimal_cp :: "nat \<Rightarrow> nat option"
  int_max_str_digits :: nat

text \<open>
  \<open>str.isspace\<close> on one code point; \<open>str.strip()\<close> and the class \<open>\s\<close> of \<open>re\<close> on a
  \<open>str\<close> pattern use the same test.
\<close>

definition isspace :: "nat \<Rightarrow> bool" where
  "isspace c \<longleftrightarrow>
     (0x09 \<le> c \<and> c \<le> 0x0D) \<or> (0x1C \<le> c \<and> c \<le> 0x20) \<or> c = 0x85 \<or> c = 0xA0 \<or>
     c = 0x1680 \<or> (0x2000 \<le> c \<and> c \<le> 0x200A) \<or> c = 0x2028 \<or> c = 0x2029 \<or>
     c = 0x202F \<or> c = 0x205F \<or> c = 0x3000"

definition strip :: "pystr \<Rightarrow> pystr" where
  "strip s = rev (dropWhile isspace (rev (dropWhile isspace s)))"

fun startswith :: "pystr \<Rightarrow> pystr \<Rightarrow> bool" where
  "startswith s [] = True"
| "startswith [] (p # ps) = False"
| "startswith (c # cs) (p # ps) = (c = p \<and> startswith cs ps)"

definition endswith :: "pystr \<Rightarrow> pystr \<Rightarrow> bool" where
  "endswith s p = startswith (rev s) (rev p)"

text \<open>\<open>contains sub s\<close> is Python's \<open>sub in s\<close>.\<close>

fun contains :: "pystr \<Rightarrow> pystr \<Rightarrow> bool" where
  "contains sub [] = (sub = [])"
| "contains sub (c # cs) = (startswith (c # cs) sub \<or> contains sub cs)"

text \<open>\<open>join sep xs\<close> is \<open>sep.join(xs)\<close>.\<close>

fun join :: "pystr \<Rightarrow> pystr list \<Rightarrow> pystr" where
  "join sep [] = []"
| "join sep [x] = x"
| "join sep (x # y # ys) = x @ sep @ join sep (y # ys)"

text \<open>
  \<open>str.isdigit()\<close>: every character is a digit and there is at least one character.
\<close>

definition isdigit :: "runtime \<Rightarrow> pystr \<Rightarrow> bool" where
  "isdigit U s \<longleftrightarrow> s \<noteq> [] \<and> list_all (isdigit_cp U) s"

text \<open>
  \<open>int(s)\<close> on a string without sign, blank or underscore (every call of the source is
  guarded by \<open>isdigit\<close>, which accepts none of these): it raises \<open>ValueError\<close> when a
  character is not a decimal digit, when there is no character, and when the string is
  longer than the limit on integer string conversion.
\<close>

definition py_int :: "runtime \<Rightarrow> pystr \<Rightarrow> error + int" where
  "py_int U s =
     (if int_max_str_digits U \<noteq> 0 \<and> int_max_str_digits U < length s then Inl ValueError
      else if s = [] \<or> \<not> list_all (\<lambda>c. decimal_cp U c \<noteq> None) s then Inl ValueError
      else Inr (foldl (\<lambda>a c. 10 * a + int (the (decimal_cp U c))) 0 s))"

subsection \<open>Dictionaries\<close>

text \<open>
  A \<open>dict\<close> keeps its keys in insertion order and \<open>parent.items()\<close> iterates in that order,
  so an entry is an association list with one pair for each key. \<open>setitem\<close> is
  \<open>d[k] = v\<close>: an existing key keeps its place, a new key goes to the end.
\<close>

type_synonym entry = "(pystr \<times> pystr) list"

fun setitem :: "'k \<Rightarrow> 'v \<Rightarrow> ('k \<times> 'v) list \<Rightarrow> ('k \<times> 'v) list" where
  "setitem k v [] = [(k, v)]"
| "setitem k v ((k', v') # d) = (if k' = k then (k, v) # d else (k', v') # setitem k v d)"

text \<open>\<open>dict_get d k dflt\<close> is \<open>d.get(k, dflt)\<close>.\<close>

definition dict_get :: "('k \<times> 'v) list \<Rightarrow> 'k \<Rightarrow> 'v \<Rightarrow> 'v" where
  "dict_get d k dflt = (case map_of d k of None \<Rightarrow> dflt | Some v \<Rightarrow> v)"

section \<open>Author and name handling\<close>

text \<open>
  A match of \<open>\s+and\s+\<close> (with \<open>re.IGNORECASE\<close>) at the start of \<open>s\<close>, returning what
  follows the match. Both \<open>\s+\<close> are greedy and the letters are no blanks, so the match
  takes the whole run of blanks on each side.
\<close>

definition match_and :: "pystr \<Rightarrow> pystr option" where
  "match_and s =
     (if takeWhile isspace s = [] then None
      else (case dropWhile isspace s of
              a # n # d # r \<Rightarrow>
                if (a = 0x61 \<or> a = 0x41) \<and> (n = 0x6E \<or> n = 0x4E) \<and> (d = 0x64 \<or> d = 0x44)
                   \<and> takeWhile isspace r \<noteq> []
                then Some (dropWhile isspace r) else None
            | _ \<Rightarrow> None))"

lemma match_and_shorter: "match_and s = Some r \<Longrightarrow> length r < length s"
proof -
  assume m: "match_and s = Some r"
  have a: "length (dropWhile isspace s) \<le> length s" for s
    by (rule length_dropWhile_le)
  from m obtain a n d t where s: "dropWhile isspace s = a # n # d # t" and r: "r = dropWhile isspace t"
    by (auto simp: match_and_def split: if_splits list.splits)
  have "length r \<le> length t" using r a by simp
  also have "\<dots> < length (dropWhile isspace s)" using s by simp
  also have "\<dots> \<le> length s" by (rule a)
  finally show ?thesis .
qed

text \<open>
  \<open>re.split(r'\s+and\s+', s, flags=re.IGNORECASE)\<close>: the pieces between the successive
  leftmost matches; \<open>acc\<close> is the piece being read.
\<close>

function re_split_and :: "pystr \<Rightarrow> pystr \<Rightarrow> pystr list" where
  "re_split_and acc [] = [acc]"
| "re_split_and acc (c # cs) =
     (case match_and (c # cs) of
        Some rest \<Rightarrow> acc # re_split_and [] rest
      | None \<Rightarrow> re_split_and (acc @ [c]) cs)"
  by pat_completeness auto
termination
  by (relation "measure (\<lambda>(acc, s). length s)") (auto dest: match_and_shorter)

definition parse_names :: "pystr \<Rightarrow> pystr list" where
  "parse_names name_str =
     (let parts = re_split_and [] name_str
      in map strip (filter (\<lambda>p. strip p \<noteq> []) parts))"

definition format_name :: "pystr \<Rightarrow> pystr" where
  "format_name name0 =
     (let name = strip name0
      in if 0x2C \<in> set name
         then (let last = strip (takeWhile (\<lambda>c. c \<noteq> 0x2C) name);
                   first = strip (tl (dropWhile (\<lambda>c. c \<noteq> 0x2C) name))
               in first @ str '' '' @ last)
         else name)"

definition format_name_list :: "pystr \<Rightarrow> pystr" where
  "format_name_list name_str =
     (let names = parse_names name_str;
          formatted = map format_name names
      in if length formatted = 0 then []
         else if length formatted = 1 then formatted ! 0
         else if length formatted = 2 then formatted ! 0 @ str '' and '' @ formatted ! 1
         else join (str '', '') (butlast formatted) @ str '', and '' @ last formatted)"

definition author_matches :: "runtime \<Rightarrow> pystr \<Rightarrow> pystr \<Rightarrow> bool" where
  "author_matches U name_str filter_str = contains (str_lower U filter_str) (str_lower U name_str)"

section \<open>Field helpers\<close>

text \<open>\<open>_get(entry, *keys, default=dflt)\<close>.\<close>

fun get :: "entry \<Rightarrow> pystr list \<Rightarrow> pystr \<Rightarrow> pystr" where
  "get entry [] dflt = dflt"
| "get entry (k # keys) dflt =
     (let v = strip (dict_get entry k [])
      in if v \<noteq> [] then v else get entry keys dflt)"

text \<open>
  A match of \<open>\s*-{1,2}\s*\<close> at the start of \<open>s\<close>, returning what follows the match.
\<close>

definition match_hyphens :: "pystr \<Rightarrow> pystr option" where
  "match_hyphens s =
     (case dropWhile isspace s of
        h # r \<Rightarrow>
          if h = 0x2D
          then Some (dropWhile isspace (if startswith r [0x2D] then tl r else r))
          else None
      | [] \<Rightarrow> None)"

lemma match_hyphens_shorter: "match_hyphens s = Some r \<Longrightarrow> length r < length s"
proof -
  assume m: "match_hyphens s = Some r"
  have a: "length (dropWhile isspace s) \<le> length s" for s
    by (rule length_dropWhile_le)
  from m obtain t where s: "dropWhile isspace s = 0x2D # t"
    and r: "r = dropWhile isspace (if startswith t [0x2D] then tl t else t)"
    by (auto simp: match_hyphens_def split: list.splits if_splits)
  have "length r \<le> length t" using r a [of t] a [of "tl t"] by (auto split: if_splits)
  also have "\<dots> < length (dropWhile isspace s)" using s by simp
  also have "\<dots> \<le> length s" by (rule a)
  finally show ?thesis .
qed

text \<open>\<open>re.sub(r'\s*-{1,2}\s*', EN_DASH, p)\<close>, the replacement being the en dash U+2013.\<close>

function sub_hyphens :: "pystr \<Rightarrow> pystr" where
  "sub_hyphens [] = []"
| "sub_hyphens (c # cs) =
     (case match_hyphens (c # cs) of
        Some rest \<Rightarrow> 0x2013 # sub_hyphens rest
      | None \<Rightarrow> c # sub_hyphens cs)"
  by pat_completeness auto
termination
  by (relation "measure length") (auto dest: match_hyphens_shorter)

definition pages :: "entry \<Rightarrow> pystr" where
  "pages entry =
     (let p = get entry [str ''pages''] []
      in if p = [] then [] else str ''pp.&nbsp;'' @ sub_hyphens p)"

fun removeprefix :: "pystr \<Rightarrow> pystr \<Rightarrow> pystr option" where
  "removeprefix s [] = Some s"
| "removeprefix [] (p # ps) = None"
| "removeprefix (c # cs) (p # ps) = (if c = p then removeprefix cs ps else None)"

text \<open>
  \<open>re.sub(r'^https?://(dx\.)?doi\.org/', '', doi)\<close>: the pattern is anchored at the start
  of the string, so at most one match is removed.
\<close>

definition doi_display :: "pystr \<Rightarrow> pystr" where
  "doi_display doi =
     (case removeprefix doi (str ''http'') of
        None \<Rightarrow> doi
      | Some r1 \<Rightarrow>
          (case removeprefix (if startswith r1 (str ''s'') then tl r1 else r1) (str ''://'') of
             None \<Rightarrow> doi
           | Some r2 \<Rightarrow>
               (case removeprefix (if startswith r2 (str ''dx.'') then drop 3 r2 else r2)
                       (str ''doi.org/'') of
                  None \<Rightarrow> doi
                | Some r3 \<Rightarrow> r3)))"

definition doi_link :: "pystr \<Rightarrow> pystr" where
  \<open>doi_link doi0 =
     (if doi0 = [] then []
      else (let doi = strip doi0
            in if startswith doi (str ''http'')
               then str ''DOI: <a href="'' @ doi @ str ''">'' @ doi_display doi @ str ''</a>''
               else str ''DOI: <a href="'' @ (str ''https://doi.org/'' @ doi) @ str ''">'' @ doi
                    @ str ''</a>''))\<close>

section \<open>Venue rendering per entry type\<close>

text \<open>The \<open>if\<close>/\<open>elif\<close> chain of \<open>_venue_html\<close> on the entry type.\<close>

definition venue_of_type :: "entry \<Rightarrow> pystr" where
  "venue_of_type entry =
     (let etype = dict_get entry (str ''_type'') [];
          booktitle = get entry [str ''booktitle''] [];
          journal = get entry [str ''journal''] [];
          publisher = get entry [str ''publisher''] [];
          school = get entry [str ''school''] [];
          series = get entry [str ''series''] [];
          volume = get entry [str ''volume''] [];
          number = get entry [str ''number''] [];
          address = get entry [str ''address''] [];
          isbn = get entry [str ''isbn''] [];
          note = get entry [str ''note''] [];
          editor = get entry [str ''editor''] [];
          pages = pages entry
      in if etype = str ''inproceedings'' then
           (if booktitle \<noteq> [] then str ''In <i>'' @ booktitle @ str ''</i>'' else [])
           @ (if address \<noteq> [] then str '', '' @ address else [])
           @ (if pages \<noteq> [] then str '', '' @ pages else [])
         else if etype = str ''article'' then
           (let venue =
                  (if journal \<noteq> []
                   then str ''<i>'' @ journal @ str ''</i>''
                        @ (if volume \<noteq> []
                           then str '' <b>'' @ volume @ str ''</b>''
                                @ (if number \<noteq> [] then str ''('' @ number @ str '')'' else [])
                           else [])
                   else [])
            in if pages \<noteq> [] then venue @ (if venue \<noteq> [] then str '', '' else []) @ pages
               else venue)
         else if etype = str ''book'' then
           join (str ''. '')
             ((if series \<noteq> [] then [series] else [])
              @ (if publisher \<noteq> [] then [publisher] else [])
              @ (if address \<noteq> [] then [address] else [])
              @ (if isbn \<noteq> [] then [str ''ISBN '' @ isbn] else []))
         else if etype = str ''incollection'' \<or> etype = str ''inbook'' then
           join (str '' '')
             ((if editor \<noteq> [] then [str ''In '' @ format_name_list editor @ str '' (ed.),''] else [])
              @ (if booktitle \<noteq> [] then [str ''<i>'' @ booktitle @ str ''</i>''] else [])
              @ (if publisher \<noteq> [] then [publisher] else [])
              @ (if pages \<noteq> [] then [pages] else []))
         else if etype = str ''phdthesis'' \<or> etype = str ''masterthesis''
                 \<or> etype = str ''mastersthesis'' then
           (if contains (str ''phd'') etype then str ''PhD thesis'' else str ''Master's thesis'')
           @ (if school \<noteq> [] then str '', '' @ school else [])
         else if etype = str ''techreport'' then
           (let inst = get entry [str ''institution''] [];
                num = get entry [str ''number''] []
            in str ''Technical Report''
               @ (if num \<noteq> [] then str '' '' @ num else [])
               @ (if inst \<noteq> [] then str '', '' @ inst else []))
         else if etype = str ''proceedings'' then
           join (str '', '')
             ((if publisher \<noteq> [] then [publisher] else [])
              @ (if address \<noteq> [] then [address] else [])
              @ (if isbn \<noteq> [] then [str ''ISBN '' @ isbn] else []))
         else note)"

text \<open>The links of \<open>_venue_html\<close>: the list \<open>links\<close> after both appends.\<close>

definition venue_links :: "entry \<Rightarrow> pystr list" where
  \<open>venue_links entry =
     (let url = get entry [str ''url''] [];
          doi = get entry [str ''doi''] []
      in (if url \<noteq> []
          then (if contains (str ''aclanthology'') url \<or> contains (str ''aclweb.org/anthology'') url
                then [str ''<a href="'' @ url @ str ''">ACL Anthology</a>'']
                else [str ''<a href="'' @ url @ str ''">'' @ url @ str ''</a>''])
          else [])
         @ (if doi \<noteq> [] then [doi_link doi] else []))\<close>

definition venue_html :: "entry \<Rightarrow> pystr" where
  "venue_html entry =
     (let note = get entry [str ''note''] [];
          venue0 = venue_of_type entry;
          links = venue_links entry;
          venue1 =
            (if links \<noteq> []
             then (let sep = (if venue0 \<noteq> [] \<and> \<not> endswith venue0 (str ''.'') then str ''. ''
                              else if venue0 \<noteq> [] then str '' '' else [])
                   in venue0 @ sep @ join (str ''; '') links)
             else venue0);
          venue2 =
            (if note \<noteq> [] \<and> \<not> contains note venue1 then venue1 @ str '' ('' @ note @ str '')''
             else venue1)
      in strip venue2)"

section \<open>Single-entry rendering\<close>

definition render_entry :: "entry \<Rightarrow> pystr" where
  \<open>render_entry entry =
     (let key = dict_get entry (str ''_key'') [];
          year = get entry [str ''year''] [];
          title = get entry [str ''title''] [];
          url = get entry [str ''url''] [];
          author = get entry [str ''author''] [];
          editor = get entry [str ''editor''] [];
          person_raw = (if author \<noteq> [] then author else editor);
          role_suffix = (if author = [] \<and> editor \<noteq> [] then str '' (eds)'' else []);
          person_str =
            (if person_raw \<noteq> [] then format_name_list person_raw @ role_suffix
             else str ''Unknown'');
          title_el =
            (if url \<noteq> []
             then str ''<a class="bib-title" href="'' @ url @ str ''">'' @ title @ str ''</a>''
             else str ''<span class="bib-title">'' @ title @ str ''</span>'');
          id_attr = (if key \<noteq> [] then str '' id="'' @ key @ str ''"'' else []);
          person_year = person_str @ str '' ('' @ year @ str '').'';
          venue = venue_html entry
      in str ''<div class="bib-entry"'' @ id_attr @ str ''>'' @ [0x0A]
         @ str ''  <span class="bib-meta">'' @ person_year @ str ''</span>'' @ [0x0A]
         @ str ''  '' @ title_el @ str ''.'' @ [0x0A]
         @ (if venue \<noteq> []
            then str ''  <span class="bib-venue">'' @ venue @ str ''</span>'' @ [0x0A]
            else [])
         @ str ''</div>'')\<close>

section \<open>Loading\<close>

text \<open>
  \<open>bibtexparser\<close> is a library outside the repository. A parsed entry of
  \<open>library.entries\<close> has a type, a key and a list of fields; the value of a field is
  \<open>None\<close> or what \<open>str(field.value)\<close> returns.
\<close>

record raw_entry =
  entry_type :: pystr
  entry_key :: pystr
  entry_fields :: "(pystr \<times> pystr option) list"

text \<open>
  The file system and the parser are parameters: \<open>fs p\<close> is the text of the file at
  path \<open>p\<close> (\<open>None\<close> when it cannot be read), and \<open>parse\<close> is
  \<open>bibtexparser.parse_string\<close> with the two middlewares appended, returning
  \<open>library.entries\<close>.
\<close>

fun read_texts :: "(pystr \<Rightarrow> pystr option) \<Rightarrow> pystr list \<Rightarrow> error + pystr list" where
  "read_texts fs [] = Inr []"
| "read_texts fs (p # ps) =
     (case fs p of
        None \<Rightarrow> Inl OSError
      | Some t \<Rightarrow> (case read_texts fs ps of Inl x \<Rightarrow> Inl x | Inr ts \<Rightarrow> Inr (t # ts)))"

definition read_library ::
  "(pystr \<Rightarrow> pystr option) \<Rightarrow> (pystr \<Rightarrow> error + raw_entry list) \<Rightarrow> pystr list
     \<Rightarrow> error + raw_entry list" where
  "read_library fs parse bib_paths =
     (case read_texts fs bib_paths of
        Inl x \<Rightarrow> Inl x
      | Inr texts \<Rightarrow> parse (join [0x0A] texts))"

text \<open>The dict \<open>d\<close> built for one parsed entry.\<close>

definition build_entry :: "runtime \<Rightarrow> raw_entry \<Rightarrow> entry" where
  "build_entry U r =
     foldl (\<lambda>d (k, v). setitem (str_lower U k) (case v of None \<Rightarrow> [] | Some s \<Rightarrow> s) d)
       [(str ''_type'', str_lower U (entry_type r)), (str ''_key'', entry_key r)]
       (entry_fields r)"

definition build_entries :: "runtime \<Rightarrow> raw_entry list \<Rightarrow> entry list" where
  "build_entries U lib = map (build_entry U) lib"

text \<open>\<open>getitem d k\<close> is the subscript \<open>d[k]\<close>.\<close>

definition getitem :: "('k \<times> 'v) list \<Rightarrow> 'k \<Rightarrow> error + 'v" where
  "getitem d k = (case map_of d k of None \<Rightarrow> Inl KeyError | Some v \<Rightarrow> Inr v)"

text \<open>
  The entries are mutable dicts shared between the list \<open>entries\<close> and the index
  \<open>entry_map\<close>. The store is the list itself and the address of an entry is its position,
  so \<open>entry_map\<close> sends a citation key to the position of the last entry with that key.
  \<open>entry_map_from i es m\<close> adds the entries \<open>es\<close>, which start at position \<open>i\<close>, to \<open>m\<close>.
\<close>

fun entry_map_from :: "nat \<Rightarrow> entry list \<Rightarrow> (pystr \<times> nat) list \<Rightarrow> error + (pystr \<times> nat) list" where
  "entry_map_from i [] m = Inr m"
| "entry_map_from i (e # es) m =
     (case getitem e (str ''_key'') of
        Inl x \<Rightarrow> Inl x
      | Inr k \<Rightarrow> entry_map_from (Suc i) es (setitem k i m))"

definition entry_map :: "entry list \<Rightarrow> error + (pystr \<times> nat) list" where
  "entry_map entries = entry_map_from 0 entries []"

text \<open>
  The inner loop \<open>for field, value in parent.items()\<close> on the child \<open>e\<close>;
  \<open>not e.get(field)\<close> holds when the field is missing or the empty string.
\<close>

definition inherit_field :: "entry \<Rightarrow> pystr \<times> pystr \<Rightarrow> entry" where
  "inherit_field e fv =
     (if startswith (fst fv) (str ''_'') then e
      else if map_of e (fst fv) = None \<or> map_of e (fst fv) = Some [] then setitem (fst fv) (snd fv) e
      else e)"

definition inherit :: "entry \<Rightarrow> entry \<Rightarrow> entry" where
  "inherit e parent = foldl inherit_field e parent"

text \<open>
  One round of the outer loop, for the entry at position \<open>i\<close>. The parent is read from the
  store as it is at that moment, and \<open>not parent\<close> holds for \<open>None\<close> and for an empty dict.
\<close>

definition crossref_step :: "(pystr \<times> nat) list \<Rightarrow> entry list \<Rightarrow> nat \<Rightarrow> entry list" where
  "crossref_step m entries i =
     (let e = entries ! i;
          xref_key = strip (dict_get e (str ''crossref'') [])
      in if xref_key = [] then entries
         else (case map_of m xref_key of
                 None \<Rightarrow> entries
               | Some j \<Rightarrow>
                   (let parent = entries ! j
                    in if parent = [] then entries
                       else entries[i := inherit e parent])))"

definition resolve_crossrefs :: "entry list \<Rightarrow> error + entry list" where
  "resolve_crossrefs entries =
     (case entry_map entries of
        Inl x \<Rightarrow> Inl x
      | Inr m \<Rightarrow> Inr (foldl (crossref_step m) entries [0..<length entries]))"

definition load_bibliography ::
  "runtime \<Rightarrow> (pystr \<Rightarrow> pystr option) \<Rightarrow> (pystr \<Rightarrow> error + raw_entry list) \<Rightarrow> pystr list
     \<Rightarrow> error + entry list" where
  "load_bibliography U fs parse bib_paths =
     (case read_library fs parse bib_paths of
        Inl x \<Rightarrow> Inl x
      | Inr lib \<Rightarrow> resolve_crossrefs (build_entries U lib))"

section \<open>Full bibliography\<close>

text \<open>The list \<open>visible\<close>; \<open>if author_filter\<close> fails for \<open>None\<close> and for the empty string.\<close>

definition visible :: "runtime \<Rightarrow> entry list \<Rightarrow> pystr option \<Rightarrow> entry list" where
  "visible U entries author_filter =
     (case author_filter of
        None \<Rightarrow> entries
      | Some f \<Rightarrow>
          if f \<noteq> []
          then filter (\<lambda>e. author_matches U (get e [str ''author'', str ''editor''] []) f) entries
          else entries)"

text \<open>
  The \<open>defaultdict\<close> \<open>by_year\<close>: a year seen for the first time goes to the end with an empty
  list, then the entry is appended to the list of its year.
\<close>

definition by_year :: "entry list \<Rightarrow> (pystr \<times> entry list) list" where
  "by_year vis =
     foldl (\<lambda>d e. (let year = get e [str ''year''] (str ''undated'')
                    in setitem year (dict_get d year [] @ [e]) d)) [] vis"

text \<open>
  \<open>sorted(xs, reverse=True, key=key)\<close>: the key of each element is computed once, in order,
  and an exception of \<open>key\<close> leaves \<open>sorted\<close>; the sort is stable, also in reverse, so the
  elements come by descending key and elements of equal key keep their order.
\<close>

fun decorate :: "('a \<Rightarrow> error + int) \<Rightarrow> 'a list \<Rightarrow> error + ('a \<times> int) list" where
  "decorate key [] = Inr []"
| "decorate key (x # xs) =
     (case key x of
        Inl err \<Rightarrow> Inl err
      | Inr k \<Rightarrow> (case decorate key xs of Inl err \<Rightarrow> Inl err | Inr kxs \<Rightarrow> Inr ((x, k) # kxs)))"

definition sorted_reverse :: "('a \<Rightarrow> error + int) \<Rightarrow> 'a list \<Rightarrow> error + 'a list" where
  "sorted_reverse key xs =
     (case decorate key xs of
        Inl err \<Rightarrow> Inl err
      | Inr kxs \<Rightarrow> Inr (map fst (sort_key (\<lambda>p. - snd p) kxs)))"

text \<open>The key \<open>lambda y: int(y) if y.isdigit() else 0\<close>.\<close>

definition year_key :: "runtime \<Rightarrow> pystr \<Rightarrow> error + int" where
  "year_key U y = (if isdigit U y then py_int U y else Inr 0)"

definition years :: "runtime \<Rightarrow> entry list \<Rightarrow> error + pystr list" where
  "years U vis = sorted_reverse (year_key U) (map fst (by_year vis))"

text \<open>
  The \<open>defaultdict\<close> \<open>by_decade\<close>, filled from \<open>nav_years\<close> with the key
  \<open>(int(y) // 10) * 10\<close>.
\<close>

fun by_decade :: "runtime \<Rightarrow> pystr list \<Rightarrow> (int \<times> pystr list) list \<Rightarrow> error + (int \<times> pystr list) list" where
  "by_decade U [] d = Inr d"
| "by_decade U (y # ys) d =
     (case py_int U y of
        Inl err \<Rightarrow> Inl err
      | Inr n \<Rightarrow> by_decade U ys (setitem ((n div 10) * 10) (dict_get d ((n div 10) * 10) [] @ [y]) d))"

definition nav_html :: "runtime \<Rightarrow> pystr list \<Rightarrow> error + pystr" where
  \<open>nav_html U ys =
     (let nav_years = filter (isdigit U) ys
      in case by_decade U nav_years [] of
           Inl err \<Rightarrow> Inl err
         | Inr d \<Rightarrow>
             (let decades = rev (sort (map fst d));
                  row_strs =
                    map (\<lambda>decade.
                           join (str '' '' @ [0xB7] @ str '' '')
                             (map (\<lambda>y. str ''<a href="#'' @ y @ str ''">'' @ y @ str ''</a>'')
                                (dict_get d decade []))) decades
              in Inr (str ''<p class="bib-nav">'' @ [0x0A] @ str ''  ''
                      @ join ([0x0A] @ str ''  <br>'' @ [0x0A] @ str ''  '') row_strs
                      @ [0x0A] @ str ''</p>'')))\<close>

definition year_section :: "(pystr \<times> entry list) list \<Rightarrow> pystr \<Rightarrow> pystr" where
  \<open>year_section d year =
     (let label = (if year \<noteq> str ''undated'' then year else str ''Undated'');
          body = join [0x0A, 0x0A] (map render_entry (dict_get d year []))
      in str ''<h3 id="'' @ label @ str ''">'' @ label @ str ''</h3>'' @ [0x0A]
         @ str ''<div class="bib-section">'' @ [0x0A, 0x0A] @ body @ [0x0A, 0x0A] @ str ''</div>'')\<close>

definition render_bibliography :: "runtime \<Rightarrow> entry list \<Rightarrow> pystr option \<Rightarrow> error + pystr" where
  "render_bibliography U entries author_filter =
     (let vis = visible U entries author_filter;
          d = by_year vis
      in case years U vis of
           Inl err \<Rightarrow> Inl err
         | Inr ys \<Rightarrow>
             (case nav_html U ys of
                Inl err \<Rightarrow> Inl err
              | Inr nav \<Rightarrow>
                  Inr (nav @ [0x0A, 0x0A] @ str ''<hr>'' @ [0x0A, 0x0A]
                       @ join [0x0A, 0x0A, 0x0A] (map (year_section d) ys))))"

section \<open>Command line\<close>

text \<open>\<open>count_sub sub s\<close> is \<open>s.count(sub)\<close>, the number of occurrences that do not overlap.\<close>

fun count_from :: "pystr \<Rightarrow> nat \<Rightarrow> pystr \<Rightarrow> nat" where
  "count_from sub n [] = 0"
| "count_from sub n (c # cs) =
     (if 0 < n then count_from sub (n - 1) cs
      else if startswith (c # cs) sub then 1 + count_from sub (length sub - 1) cs
      else count_from sub 0 cs)"

definition count_sub :: "pystr \<Rightarrow> pystr \<Rightarrow> nat" where
  "count_sub sub s = (if sub = [] then length s + 1 else count_from sub 0 s)"

text \<open>
  What the script prints, one constructor for each \<open>print\<close> with the values it formats:
  the usage message, \<open>Loading: {paths}\<close>, \<open>Loaded {n} entries.\<close>,
  \<open>Written bib_all.html and bib_bond.html.\<close>, \<open>All entries  : {n:4d} items\<close> and
  \<open>Bond entries : {n:4d} items\<close>.
\<close>

datatype printed =
  Usage | Loading "pystr list" | Loaded nat | Written | All_entries nat | Bond_entries nat

record outcome =
  exit_status :: nat
  stdout :: "printed list"
  written :: "(pystr \<times> pystr) list"

text \<open>
  The script, run with \<open>sys.argv = argv\<close>. An exception that leaves the script is \<open>Inl\<close>;
  both renderings are computed before the first file is written.
\<close>

definition main ::
  "runtime \<Rightarrow> (pystr \<Rightarrow> pystr option) \<Rightarrow> (pystr \<Rightarrow> error + raw_entry list) \<Rightarrow> pystr list
     \<Rightarrow> error + outcome" where
  "main U fs parse argv =
     (if length argv < 2 then Inr \<lparr>exit_status = 1, stdout = [Usage], written = []\<rparr>
      else (let paths = tl argv
            in case load_bibliography U fs parse paths of
                 Inl x \<Rightarrow> Inl x
               | Inr all_entries \<Rightarrow>
                   (case render_bibliography U all_entries None of
                      Inl x \<Rightarrow> Inl x
                    | Inr html_all \<Rightarrow>
                        (case render_bibliography U all_entries (Some (str ''Bond'')) of
                           Inl x \<Rightarrow> Inl x
                         | Inr html_bond \<Rightarrow>
                             Inr \<lparr>exit_status = 0,
                                  stdout =
                                    [Loading paths, Loaded (length all_entries), Written,
                                     All_entries (count_sub (str ''<dt>'') html_all),
                                     Bond_entries (count_sub (str ''<dt>'') html_bond)],
                                  written =
                                    [(str ''bib_all.html'', html_all),
                                     (str ''bib_bond.html'', html_bond)]\<rparr>))))"

text \<open>
  An instance of the runtime for evaluating the model on concrete inputs: the tables of
  CPython for the code points below 256 (the others are taken as caseless and as no digits),
  with the default limit on integer string conversion.
\<close>

definition latin1 :: runtime where
  "latin1 =
     \<lparr>str_lower =
        map (\<lambda>c. if (0x41 \<le> c \<and> c \<le> 0x5A) \<or> (0xC0 \<le> c \<and> c \<le> 0xDE \<and> c \<noteq> 0xD7) then c + 32 else c),
      isdigit_cp = (\<lambda>c. (0x30 \<le> c \<and> c \<le> 0x39) \<or> c = 0xB2 \<or> c = 0xB3 \<or> c = 0xB9),
      decimal_cp = (\<lambda>c. if 0x30 \<le> c \<and> c \<le> 0x39 then Some (c - 0x30) else None),
      int_max_str_digits = 4300\<rparr>"

section \<open>Concrete inputs\<close>

text \<open>
  Two libraries for concrete runs: a paper before the proceedings it refers to, and a chain
  of three entries in which each parent comes before its child.
\<close>

definition paper_library :: "raw_entry list" where
  "paper_library =
     [\<lparr>entry_type = str ''inproceedings'', entry_key = str ''paper'',
       entry_fields = [(str ''crossref'', Some (str ''acl'')), (str ''title'', Some (str ''A Paper''))]\<rparr>,
      \<lparr>entry_type = str ''proceedings'', entry_key = str ''acl'',
       entry_fields = [(str ''booktitle'', Some (str ''Proc. ACL'')), (str ''year'', Some (str ''2020''))]\<rparr>]"

definition chain_library :: "raw_entry list" where
  "chain_library =
     [\<lparr>entry_type = str ''proceedings'', entry_key = str ''series'',
       entry_fields = [(str ''year'', Some (str ''2020''))]\<rparr>,
      \<lparr>entry_type = str ''proceedings'', entry_key = str ''acl'',
       entry_fields = [(str ''crossref'', Some (str ''series'')), (str ''booktitle'', Some (str ''Proc. ACL''))]\<rparr>,
      \<lparr>entry_type = str ''inproceedings'', entry_key = str ''paper'',
       entry_fields = [(str ''crossref'', Some (str ''acl'')), (str ''title'', Some (str ''A Paper''))]\<rparr>]"

text \<open>Entries for concrete runs of the filter and of the grouping by year.\<close>

definition bond_entries :: "entry list" where
  "bond_entries =
     [[(str ''_type'', str ''article''), (str ''_key'', str ''bond:2005''),
       (str ''author'', str ''Bond, Francis and Baldwin, Timothy''), (str ''title'', str ''A''),
       (str ''year'', str ''2005'')],
      [(str ''_type'', str ''book''), (str ''_key'', str ''smith:2019''),
       (str ''editor'', str ''Smith, Jane''), (str ''title'', str ''B''),
       (str ''year'', str ''2019'')]]"

definition dated_entries :: "entry list" where
  "dated_entries =
     [[(str ''_type'', str ''misc''), (str ''_key'', str ''a''), (str ''year'', str ''2019'')],
      [(str ''_type'', str ''misc''), (str ''_key'', str ''b''), (str ''year'', str ''2021'')],
      [(str ''_type'', str ''misc''), (str ''_key'', str ''c'')],
      [(str ''_type'', str ''misc''), (str ''_key'', str ''d''), (str ''year'', str ''2005'')]]"

definition undated_first_entries :: "entry list" where
  "undated_first_entries =
     [[(str ''_type'', str ''misc''), (str ''_key'', str ''a'')],
      [(str ''_type'', str ''misc''), (str ''_key'', str ''b''), (str ''year'', str ''forthcoming'')],
      [(str ''_type'', str ''misc''), (str ''_key'', str ''c''), (str ''year'', str ''0'')]]"

text \<open>A library with one entry, and the page that the renderer makes of it.\<close>

definition bond_library :: "raw_entry list" where
  "bond_library =
     [\<lparr>entry_type = str ''article'', entry_key = str ''bond:2005'',
       entry_fields = [(str ''author'', Some (str ''Bond, Francis'')),
                       (str ''title'', Some (str ''A Title'')),
                       (str ''year'', Some (str ''2005''))]\<rparr>]"

definition bond_html :: pystr where
  \<open>bond_html =
     str ''<p class="bib-nav">'' @ [0x0A]
     @ str ''  <a href="#2005">2005</a>'' @ [0x0A]
     @ str ''</p>'' @ [0x0A, 0x0A]
     @ str ''<hr>'' @ [0x0A, 0x0A]
     @ str ''<h3 id="2005">2005</h3>'' @ [0x0A]
     @ str ''<div class="bib-section">'' @ [0x0A, 0x0A]
     @ str ''<div class="bib-entry" id="bond:2005">'' @ [0x0A]
     @ str ''  <span class="bib-meta">Francis Bond (2005).</span>'' @ [0x0A]
     @ str ''  <span class="bib-title">A Title</span>.'' @ [0x0A]
     @ str ''</div>'' @ [0x0A, 0x0A]
     @ str ''</div>''\<close>


section \<open>The prose list of names\<close>







section \<open>Properties of the field helpers and of the venue\<close>

text \<open>The definitions unfolded to evaluate the venue of a concrete entry.\<close>

lemmas eval_defs = str_def dict_get_def strip_def isspace_def match_hyphens_def endswith_def
  pages_def venue_html_def venue_of_type_def venue_links_def

text \<open>
  C2 (as the code has it). For the entry with type \<open>article\<close>, journal \<open>JAIR\<close>, volume \<open>10\<close>,
  number \<open>2\<close> and pages \<open>1-20\<close>, \<open>_venue_html\<close> returns
  \<open><i>JAIR</i> <b>10</b>(2), pp.&nbsp;1\<close>, an en dash (U+2013) and \<open>20\<close>: after \<open>pp.\<close> comes
  the six-character HTML entity \<open>&nbsp;\<close>.
\<close>

theorem venue_article_example:
  "venue_html
     [(str ''_type'', str ''article''), (str ''journal'', str ''JAIR''), (str ''volume'', str ''10''),
      (str ''number'', str ''2''), (str ''pages'', str ''1-20'')]
   = str ''<i>JAIR</i> <b>10</b>(2), pp.&nbsp;1'' @ [0x2013] @ str ''20''"
  by (simp add: eval_defs)

text \<open>
  C2 (as the specification words it) fails: the string returned for that entry is not the one
  with the single no-break space character U+00A0 after \<open>pp.\<close>.
\<close>

theorem venue_article_nbsp_counterexample:
  "venue_html
     [(str ''_type'', str ''article''), (str ''journal'', str ''JAIR''), (str ''volume'', str ''10''),
      (str ''number'', str ''2''), (str ''pages'', str ''1-20'')]
   \<noteq> str ''<i>JAIR</i> <b>10</b>(2), pp.'' @ [0xA0] @ str ''1'' @ [0x2013] @ str ''20''"
  by (simp add: eval_defs)

text \<open>
  Whatever the pages string is, no hyphen is left after the substitution: every run of
  hyphens has been replaced.
\<close>

lemma sub_hyphens_no_hyphen: "0x2D \<notin> set (sub_hyphens p)"
proof (induction p rule: sub_hyphens.induct)
  case 1
  then show ?case by simp
next
  case (2 c cs)
  show ?case
  proof (cases "match_hyphens (c # cs)")
    case None
    then have "c \<noteq> 0x2D" by (auto simp: match_hyphens_def isspace_def split: list.splits if_splits)
    with None 2 show ?thesis by simp
  next
    case (Some r)
    with 2 show ?thesis by simp
  qed
qed


lemma match_hyphens_plain: "\<not> isspace c \<Longrightarrow> c \<noteq> 0x2D \<Longrightarrow> match_hyphens (c # cs) = None"
  by (simp add: match_hyphens_def)

lemma dropWhile_blanks: "\<forall>c\<in>set w. isspace c \<Longrightarrow> dropWhile isspace (w @ r) = dropWhile isspace r"
  by (induction w) simp_all

lemma match_hyphens_range:
  assumes w1: "\<forall>c\<in>set w1. isspace c" and w2: "\<forall>c\<in>set w2. isspace c"
    and h: "h = [0x2D] \<or> h = [0x2D, 0x2D]"
    and b: "b \<noteq> []" "\<not> isspace (hd b)" "hd b \<noteq> 0x2D"
  shows "match_hyphens (w1 @ h @ w2 @ b) = Some b"
proof -
  have nb: "\<not> isspace 0x2D" by (simp add: isspace_def)
  from b have db: "dropWhile isspace b = b" by (cases b) auto
  have nsw: "\<not> startswith (w2 @ b) [0x2D]"
  proof (cases w2)
    case Nil
    with b show ?thesis by (cases b) auto
  next
    case (Cons x xs)
    with w2 nb have "x \<noteq> 0x2D" by auto
    with Cons show ?thesis by simp
  qed
  from h show ?thesis
  proof
    assume "h = [0x2D]"
    then show ?thesis
      using nsw nb by (simp add: match_hyphens_def dropWhile_blanks [OF w1] dropWhile_blanks [OF w2] db)
  next
    assume "h = [0x2D, 0x2D]"
    then show ?thesis
      using nb by (simp add: match_hyphens_def dropWhile_blanks [OF w1] dropWhile_blanks [OF w2] db)
  qed
qed

text \<open>
  The substitution handles what stands before a character that is neither blank nor hyphen
  independently of what follows: no match goes past such a character.
\<close>

lemma dropWhile_before:
  "t \<noteq> [] \<Longrightarrow> \<not> isspace (hd t) \<Longrightarrow> dropWhile isspace (r @ t) = dropWhile isspace r @ t"
  by (induction r) (simp_all, cases t, simp_all)

lemma match_hyphens_before:
  assumes t: "t \<noteq> []" "\<not> isspace (hd t)" "hd t \<noteq> 0x2D"
  shows "match_hyphens (u @ t) = map_option (\<lambda>r. r @ t) (match_hyphens u)"
proof (cases "dropWhile isspace u")
  case Nil
  have a: "dropWhile isspace (u @ t) = t"
    unfolding dropWhile_before [OF t(1,2)] Nil by simp
  obtain c cs where c: "t = c # cs" using t(1) by (cases t) auto
  show ?thesis unfolding match_hyphens_def a Nil using t by (simp add: c)
next
  case (Cons h r)
  have sw: "startswith (r @ t) [0x2D] = startswith r [0x2D]"
    using t by (cases r; cases t) simp_all
  have tl: "startswith r [0x2D] \<Longrightarrow> tl (r @ t) = tl r @ t" by (cases r) simp_all
  show ?thesis
    using Cons tl
    by (simp add: match_hyphens_def dropWhile_before [OF t(1,2)] sw)
qed

lemma sub_hyphens_before:
  assumes t: "t \<noteq> []" "\<not> isspace (hd t)" "hd t \<noteq> 0x2D"
  shows "sub_hyphens (u @ t) = sub_hyphens u @ sub_hyphens t"
proof (induction u rule: sub_hyphens.induct)
  case 1
  then show ?case by simp
next
  case (2 c cs)
  have m: "match_hyphens (c # cs @ t) = map_option (\<lambda>r. r @ t) (match_hyphens (c # cs))"
    using match_hyphens_before [OF t, of "c # cs"] by simp
  show ?case
  proof (cases "match_hyphens (c # cs)")
    case None
    with 2 m show ?thesis by simp
  next
    case (Some rest)
    with 2 m show ?thesis by simp
  qed
qed

lemma sub_hyphens_range:
  assumes x: "\<not> isspace x" "x \<noteq> 0x2D" and y: "\<not> isspace y" "y \<noteq> 0x2D"
    and w1: "\<forall>c\<in>set w1. isspace c" and w2: "\<forall>c\<in>set w2. isspace c"
    and h: "h = [0x2D] \<or> h = [0x2D, 0x2D]"
  shows "sub_hyphens (pre @ [x] @ w1 @ h @ w2 @ [y] @ post)
       = sub_hyphens pre @ [x, 0x2013, y] @ sub_hyphens post"
proof -
  let ?b = "y # post"
  let ?s = "w1 @ h @ w2 @ ?b"
  have m: "match_hyphens ?s = Some ?b"
    by (rule match_hyphens_range [OF w1 w2 h]) (simp_all add: y)
  obtain c cs where c: "?s = c # cs" by (cases ?s) auto
  have s: "sub_hyphens ?s = 0x2013 # sub_hyphens ?b"
    using m unfolding c by simp
  have b: "sub_hyphens ?b = y # sub_hyphens post"
    by (simp add: match_hyphens_plain y)
  have "sub_hyphens (pre @ x # ?s) = sub_hyphens pre @ sub_hyphens (x # ?s)"
    by (rule sub_hyphens_before) (simp_all add: x)
  also have "sub_hyphens (x # ?s) = x # sub_hyphens ?s"
    by (simp add: match_hyphens_plain x)
  finally show ?thesis unfolding s b by simp
qed

text \<open>A text without hyphen is left as it is, blanks included.\<close>

lemma sub_hyphens_text: "0x2D \<notin> set a \<Longrightarrow> sub_hyphens a = a"
proof (induction a)
  case Nil
  then show ?case by simp
next
  case (Cons c cs)
  have "match_hyphens (c # cs) = None"
  proof (cases "dropWhile isspace (c # cs)")
    case Nil
    then show ?thesis by (simp add: match_hyphens_def)
  next
    case (Cons d ds)
    then have "d \<in> set (c # cs)" by (metis list.set_intros(1) set_dropWhileD)
    with Cons.prems have "d \<noteq> 0x2D" by auto
    with Cons show ?thesis by (simp add: match_hyphens_def)
  qed
  with Cons show ?case by simp
qed

text \<open>
  C6. Let \<open>p\<close> be the pages string that \<open>_pages\<close> reads, whatever it is, and take any page
  range in it: a character \<open>x\<close> that is neither blank nor hyphen, optional blanks, one or two
  hyphens, optional blanks, and a character \<open>y\<close> that is neither blank nor hyphen. In the
  rendered fragment the range is \<open>x\<close>, a single en dash (U+2013) and \<open>y\<close>; what stands before
  \<open>x\<close> and after \<open>y\<close> is normalised on its own, so every range of the string is replaced and
  not only the first. In particular \<open>100--110\<close> and \<open>100-110\<close> give the same fragment.
\<close>

theorem pages_range_en_dash:
  assumes p: "get entry [str ''pages''] [] = pre @ [x] @ w1 @ h @ w2 @ [y] @ post"
    and x: "\<not> isspace x" "x \<noteq> 0x2D" and y: "\<not> isspace y" "y \<noteq> 0x2D"
    and w1: "\<forall>c\<in>set w1. isspace c" and w2: "\<forall>c\<in>set w2. isspace c"
    and h: "h = [0x2D] \<or> h = [0x2D, 0x2D]"
  shows "pages entry = str ''pp.&nbsp;'' @ sub_hyphens pre @ [x, 0x2013, y] @ sub_hyphens post"
proof -
  have "pages entry = str ''pp.&nbsp;'' @ sub_hyphens (pre @ [x] @ w1 @ h @ w2 @ [y] @ post)"
    unfolding pages_def p by (simp add: Let_def)
  then show ?thesis by (simp only: sub_hyphens_range [OF x y w1 w2 h])
qed

theorem pages_range_en_dash_witness:
  "pages [(str ''pages'', str ''100--110'')] = str ''pp.&nbsp;100'' @ [0x2013] @ str ''110''
   \<and> pages [(str ''pages'', str ''100-110'')] = str ''pp.&nbsp;100'' @ [0x2013] @ str ''110''
   \<and> pages [(str ''pages'', str ''1 - 5, 10--20'')]
       = str ''pp.&nbsp;1'' @ [0x2013] @ str ''5, 10'' @ [0x2013] @ str ''20''"
  using pages_range_en_dash [of "[(str ''pages'', str ''100--110'')]" "str ''10''" "0x30" "[]" "str ''--''" "[]" "0x31" "str ''10''"]
    pages_range_en_dash [of "[(str ''pages'', str ''100-110'')]" "str ''10''" "0x30" "[]" "str ''-''" "[]" "0x31" "str ''10''"]
    pages_range_en_dash [of "[(str ''pages'', str ''1 - 5, 10--20'')]" "str ''1 - 5, 1''" "0x30" "[]" "str ''--''" "[]" "0x32" "str ''0''"]
  by (simp add: str_def dict_get_def strip_def isspace_def match_hyphens_def)
section \<open>Properties of the loader\<close>

subsection \<open>Dictionaries and inheritance\<close>

lemma map_of_setitem: "map_of (setitem k v d) = (map_of d)(k \<mapsto> v)"
  by (induction d) (auto simp: fun_eq_iff)

lemma keys_setitem: "fst ` set (setitem k v d) = insert k (fst ` set d)"
proof -
  have "fst ` set (setitem k v d) = dom (map_of (setitem k v d))"
    by (simp add: dom_map_of_conv_image_fst)
  also have "\<dots> = insert k (dom (map_of d))" by (simp add: map_of_setitem)
  finally show ?thesis by (simp add: dom_map_of_conv_image_fst)
qed

lemma distinct_setitem: "distinct (map fst d) \<Longrightarrow> distinct (map fst (setitem k v d))"
  by (induction d) (auto simp: keys_setitem)

lemma map_of_inherit_field:
  "map_of (inherit_field e (g, v)) f =
     (if f = g \<and> \<not> startswith g (str ''_'') \<and> (map_of e g = None \<or> map_of e g = Some [])
      then Some v else map_of e f)"
  by (simp add: inherit_field_def map_of_setitem)

lemma distinct_inherit_field: "distinct (map fst e) \<Longrightarrow> distinct (map fst (inherit_field e fv))"
  by (simp add: inherit_field_def distinct_setitem)

lemma distinct_inherit: "distinct (map fst e) \<Longrightarrow> distinct (map fst (inherit e parent))"
  unfolding inherit_def by (induction parent arbitrary: e) (simp_all add: distinct_inherit_field)

lemma inherit_reserved:
  "startswith f (str ''_'') \<Longrightarrow> map_of (inherit e parent) f = map_of e f"
  unfolding inherit_def
proof (induction parent arbitrary: e)
  case Nil
  then show ?case by simp
next
  case (Cons p ps)
  obtain g v where p: "p = (g, v)" by (cases p)
  show ?case using Cons by (auto simp: p map_of_inherit_field)
qed

lemma inherit_keeps:
  "map_of e f = Some v \<Longrightarrow> v \<noteq> [] \<Longrightarrow> map_of (inherit e parent) f = Some v"
  unfolding inherit_def
proof (induction parent arbitrary: e)
  case Nil
  then show ?case by simp
next
  case (Cons p ps)
  obtain g w where p: "p = (g, w)" by (cases p)
  have "map_of (inherit_field e (g, w)) f = Some v"
    using Cons.prems by (auto simp: map_of_inherit_field)
  then show ?case using Cons.IH Cons.prems(2) by (simp add: p)
qed

lemma map_of_inherit:
  "distinct (map fst parent) \<Longrightarrow>
   map_of (inherit e parent) f =
     (if startswith f (str ''_'') then map_of e f
      else if map_of e f = None \<or> map_of e f = Some []
           then (case map_of parent f of None \<Rightarrow> map_of e f | Some v \<Rightarrow> Some v)
      else map_of e f)"
  unfolding inherit_def
proof (induction parent arbitrary: e)
  case Nil
  then show ?case by simp
next
  case (Cons p ps)
  obtain g w where p: "p = (g, w)" by (cases p)
  from Cons.prems have d: "distinct (map fst ps)" and g: "g \<notin> fst ` set ps" by (auto simp: p)
  from g have n: "map_of ps g = None" by (simp add: map_of_eq_None_iff)
  have ih: "map_of (foldl inherit_field e' ps) f =
     (if startswith f (str ''_'') then map_of e' f
      else if map_of e' f = None \<or> map_of e' f = Some []
           then (case map_of ps f of None \<Rightarrow> map_of e' f | Some v \<Rightarrow> Some v)
      else map_of e' f)" for e'
    by (rule Cons.IH [OF d])
  show ?case
  proof (cases "f = g")
    case True
    show ?thesis
      using n unfolding p True [symmetric]
      by (simp add: ih map_of_inherit_field split: option.splits)
  next
    case False
    show ?thesis
      by (simp add: p ih False map_of_inherit_field split: option.splits)
  qed
qed

lemma length_crossref_step: "length (crossref_step m es i) = length es"
  by (simp add: crossref_step_def Let_def split: option.splits)

lemma crossref_step_other: "j \<noteq> i \<Longrightarrow> crossref_step m es i ! j = es ! j"
  by (simp add: crossref_step_def Let_def split: option.splits)

lemma length_crossref_loop: "length (foldl (crossref_step m) es ks) = length es"
  by (induction ks arbitrary: es) (simp_all add: length_crossref_step)

lemma crossref_loop_other: "j \<notin> set ks \<Longrightarrow> foldl (crossref_step m) es ks ! j = es ! j"
  by (induction ks arbitrary: es) (simp_all add: crossref_step_other)

text \<open>
  The entry at position \<open>i\<close> after the whole pass is what round \<open>i\<close> makes of it, and round
  \<open>i\<close> sees the entries before \<open>i\<close> as they are at the end and the others as they were loaded.
\<close>

lemma crossref_loop_at:
  fixes m :: "(pystr \<times> nat) list" and es :: "entry list" and i :: nat
  assumes i: "i < length es"
  defines "final \<equiv> foldl (crossref_step m) es [0..<length es]"
  defines "before \<equiv> foldl (crossref_step m) es [0..<i]"
  shows "final ! i = crossref_step m before i ! i"
    and "j < i \<Longrightarrow> before ! j = final ! j"
    and "i \<le> j \<Longrightarrow> before ! j = es ! j"
proof -
  have split: "[0..<length es] = [0..<i] @ i # [Suc i..<length es]"
  proof -
    have "[0..<length es] = [0..<i] @ [i..<length es]"
      using upt_add_eq_append [of 0 i "length es - i"] i by simp
    then show ?thesis using i by (simp add: upt_conv_Cons)
  qed
  have f: "final = foldl (crossref_step m) (crossref_step m before i) [Suc i..<length es]"
    by (simp add: final_def before_def split)
  show "final ! i = crossref_step m before i ! i"
    unfolding f by (rule crossref_loop_other) simp
  show "before ! j = final ! j" if "j < i"
  proof -
    have "final ! j = crossref_step m before i ! j"
      unfolding f using that by (intro crossref_loop_other) simp
    also have "\<dots> = before ! j" using that by (simp add: crossref_step_other)
    finally show ?thesis by simp
  qed
  show "before ! j = es ! j" if "i \<le> j"
    unfolding before_def using that by (intro crossref_loop_other) simp
qed

subsection \<open>The index of the entries\<close>

lemma entry_map_from_Inr:
  "entry_map_from i es m0 = Inr m \<Longrightarrow> map_of m k = Some j \<Longrightarrow>
     map_of m0 k = Some j \<or> (i \<le> j \<and> j < i + length es)"
proof (induction es arbitrary: i m0)
  case Nil
  then show ?case by simp
next
  case (Cons e es)
  from Cons.prems(1) obtain k' where k': "getitem e (str ''_key'') = Inr k'"
    and r: "entry_map_from (Suc i) es (setitem k' i m0) = Inr m"
    by (auto split: sum.splits)
  from Cons.IH [OF r Cons.prems(2)] show ?case
    by (auto simp: map_of_setitem split: if_splits)
qed

lemma entry_map_in_range:
  "entry_map es = Inr m \<Longrightarrow> map_of m k = Some j \<Longrightarrow> j < length es"
  using entry_map_from_Inr [of 0 es "[]" m k j] by (simp add: entry_map_def)

text \<open>The index sends a key to the last position that holds an entry with that key.\<close>

lemma entry_map_from_last:
  "entry_map_from i es m0 = Inr m \<Longrightarrow>
   map_of m k =
     (if \<exists>n < length es. map_of (es ! n) (str ''_key'') = Some k
      then Some (i + (GREATEST n. n < length es \<and> map_of (es ! n) (str ''_key'') = Some k))
      else map_of m0 k)"
proof (induction es arbitrary: i m0)
  case Nil
  then show ?case by simp
next
  case (Cons e es)
  let ?K = "str ''_key''"
  from Cons.prems(1) obtain k' where k': "map_of e ?K = Some k'"
    and r: "entry_map_from (Suc i) es (setitem k' i m0) = Inr m"
    by (auto simp: getitem_def split: sum.splits option.splits)
  note ih = Cons.IH [OF r]
  let ?P = "\<lambda>n. n < length es \<and> map_of (es ! n) ?K = Some k"
  let ?Q = "\<lambda>n. n < length (e # es) \<and> map_of ((e # es) ! n) ?K = Some k"
  show ?case
  proof (cases "\<exists>n. ?P n")
    case True
    then obtain n where n: "?P n" ..
    have b: "\<forall>y. ?P y \<longrightarrow> y \<le> length es" by simp
    have gp: "?P (Greatest ?P)" using GreatestI_nat [of ?P n "length es"] n b by blast
    have gm: "\<And>y. ?P y \<Longrightarrow> y \<le> Greatest ?P" using Greatest_le_nat [of ?P _ "length es"] b by blast
    have q: "?Q (Suc (Greatest ?P))" using gp by simp
    have "Greatest ?Q = Suc (Greatest ?P)"
    proof (rule Greatest_equality)
      show "?Q (Suc (Greatest ?P))" by (rule q)
    next
      fix y assume y: "?Q y"
      show "y \<le> Suc (Greatest ?P)"
      proof (cases y)
        case 0
        then show ?thesis by simp
      next
        case (Suc y')
        with y have "?P y'" by simp
        then show ?thesis using gm Suc by simp
      qed
    qed
    moreover have "\<exists>n. ?Q n" using q by blast
    ultimately show ?thesis using ih True by simp
  next
    case False
    show ?thesis
    proof (cases "k' = k")
      case True
      have "Greatest ?Q = 0"
      proof (rule Greatest_equality)
        show "?Q 0" using k' True by simp
      next
        fix y assume y: "?Q y"
        show "y \<le> 0"
        proof (cases y)
          case 0
          then show ?thesis by simp
        next
          case (Suc y')
          with y have "?P y'" by simp
          with False show ?thesis by blast
        qed
      qed
      moreover have "?Q 0" using k' True by simp
      then have "\<exists>n. ?Q n" by blast
      ultimately show ?thesis using ih False True by (simp add: map_of_setitem)
    next
      case ne: False
      have "\<not> (\<exists>n. ?Q n)"
      proof
        assume "\<exists>n. ?Q n"
        then obtain y where y: "?Q y" ..
        show False
        proof (cases y)
          case 0
          with y k' ne show ?thesis by simp
        next
          case (Suc y')
          with y have "?P y'" by simp
          with False show ?thesis by blast
        qed
      qed
      then show ?thesis using ih False ne by (auto simp: map_of_setitem)
    qed
  qed
qed

lemma entry_map_total:
  "\<forall>e\<in>set es. map_of e (str ''_key'') \<noteq> None \<Longrightarrow> \<exists>m. entry_map_from i es m0 = Inr m"
  by (induction es arbitrary: i m0) (auto simp: getitem_def split: option.splits)

subsection \<open>The entries as built\<close>

lemma build_fold_distinct:
  "distinct (map fst d) \<Longrightarrow>
   distinct (map fst (foldl (\<lambda>d (k, v). setitem (str_lower U k) (case v of None \<Rightarrow> [] | Some s \<Rightarrow> s) d) d fs))"
  by (induction fs arbitrary: d) (auto simp: distinct_setitem)

lemma build_fold_keys:
  "fst ` set d \<subseteq>
   fst ` set (foldl (\<lambda>d (k, v). setitem (str_lower U k) (case v of None \<Rightarrow> [] | Some s \<Rightarrow> s) d) d fs)"
proof (induction fs arbitrary: d)
  case Nil
  then show ?case by simp
next
  case (Cons a fs)
  obtain k v where a: "a = (k, v)" by (cases a)
  have "fst ` set d \<subseteq> fst ` set (setitem (str_lower U k) (case v of None \<Rightarrow> [] | Some s \<Rightarrow> s) d)"
    by (auto simp: keys_setitem)
  also note Cons.IH
  finally show ?case by (simp add: a)
qed

lemma distinct_build_entry: "distinct (map fst (build_entry U r))"
  unfolding build_entry_def by (rule build_fold_distinct) (simp add: str_def)

lemma build_entry_has_key: "map_of (build_entry U r) (str ''_key'') \<noteq> None"
proof -
  have "str ''_key'' \<in> fst ` set (build_entry U r)"
    unfolding build_entry_def by (rule subsetD [OF build_fold_keys]) simp
  then show ?thesis by (simp add: map_of_eq_None_iff)
qed

subsection \<open>The crossref pass\<close>

lemma resolve_crossrefs_Inr:
  "resolve_crossrefs es = Inr final \<Longrightarrow>
   \<exists>m. entry_map es = Inr m \<and> final = foldl (crossref_step m) es [0..<length es]"
  by (auto simp: resolve_crossrefs_def split: sum.splits)

lemma resolve_length: "resolve_crossrefs es = Inr final \<Longrightarrow> length final = length es"
  by (auto dest!: resolve_crossrefs_Inr simp: length_crossref_loop)

lemma resolve_at:
  assumes m: "entry_map es = Inr m" and r: "resolve_crossrefs es = Inr final" and i: "i < length es"
  shows "final ! i =
     (let e = es ! i;
          xref_key = strip (dict_get e (str ''crossref'') [])
      in if xref_key = [] then e
         else (case map_of m xref_key of
                 None \<Rightarrow> e
               | Some j \<Rightarrow>
                   (let parent = (if j < i then final ! j else es ! j)
                    in if parent = [] then e else inherit e parent)))"
proof -
  define before where "before = foldl (crossref_step m) es [0..<i]"
  from r m have f: "final = foldl (crossref_step m) es [0..<length es]"
    by (simp add: resolve_crossrefs_def)
  have a: "final ! i = crossref_step m before i ! i"
    unfolding f before_def by (rule crossref_loop_at(1) [OF i])
  have b: "before ! j = (if j < i then final ! j else es ! j)" for j
    unfolding f before_def
    using crossref_loop_at(2) [OF i, of j m] crossref_loop_at(3) [OF i, of j m] by simp
  have l: "i < length before" using i by (simp add: before_def length_crossref_loop)
  have bi: "before ! i = es ! i" using b [of i] by simp
  show ?thesis
    unfolding a crossref_step_def Let_def bi
    using l by (simp add: b bi split: option.splits)
qed

lemma resolve_reserved:
  assumes r: "resolve_crossrefs es = Inr final" and i: "i < length es"
    and f: "startswith f (str ''_'')"
  shows "map_of (final ! i) f = map_of (es ! i) f"
proof -
  from r obtain m where m: "entry_map es = Inr m" by (auto dest: resolve_crossrefs_Inr)
  show ?thesis
    unfolding resolve_at [OF m r i]
    by (simp add: Let_def inherit_reserved [OF f] split: option.splits)
qed

lemma resolve_keeps:
  assumes r: "resolve_crossrefs es = Inr final" and i: "i < length es"
    and v: "map_of (es ! i) f = Some v" "v \<noteq> []"
  shows "map_of (final ! i) f = Some v"
proof -
  from r obtain m where m: "entry_map es = Inr m" by (auto dest: resolve_crossrefs_Inr)
  show ?thesis
    unfolding resolve_at [OF m r i]
    by (simp add: Let_def inherit_keeps [OF v] v split: option.splits)
qed

lemma crossref_step_distinct:
  assumes "\<forall>e\<in>set es. distinct (map fst e)" and "i < length es"
  shows "\<forall>e\<in>set (crossref_step m es i). distinct (map fst e)"
proof -
  have "\<forall>e\<in>set (es[i := x]). distinct (map fst e)" if "distinct (map fst x)" for x
    using assms(1) that set_update_subset_insert [of es i x] by auto
  moreover have "distinct (map fst (inherit (es ! i) p))" for p
    using assms by (intro distinct_inherit) simp
  ultimately have "\<forall>e\<in>set (es[i := inherit (es ! i) p]). distinct (map fst e)" for p
    by blast
  then show ?thesis
    using assms(1) by (simp add: crossref_step_def Let_def split: option.splits)
qed

lemma crossref_loop_distinct:
  "\<forall>e\<in>set es. distinct (map fst e) \<Longrightarrow> \<forall>k\<in>set ks. k < length es \<Longrightarrow>
   \<forall>e\<in>set (foldl (crossref_step m) es ks). distinct (map fst e)"
proof (induction ks arbitrary: es)
  case Nil
  then show ?case by simp
next
  case (Cons k ks)
  have "\<forall>e\<in>set (crossref_step m es k). distinct (map fst e)"
    using Cons.prems by (intro crossref_step_distinct) simp_all
  moreover have "\<forall>k\<in>set ks. k < length (crossref_step m es k')" for k'
    using Cons.prems(2) by (simp add: length_crossref_step)
  ultimately show ?case using Cons.IH by simp
qed

lemma resolve_distinct:
  assumes r: "resolve_crossrefs es = Inr final" and d: "\<forall>e\<in>set es. distinct (map fst e)"
    and i: "i < length es"
  shows "distinct (map fst (final ! i))"
proof -
  from r obtain m where f: "final = foldl (crossref_step m) es [0..<length es]"
    by (auto dest: resolve_crossrefs_Inr)
  have "\<forall>e\<in>set final. distinct (map fst e)"
    unfolding f by (rule crossref_loop_distinct [OF d]) simp
  moreover have "i < length final" using i by (simp add: f length_crossref_loop)
  ultimately show ?thesis by simp
qed

lemma load_bibliography_Inr:
  "read_library fs parse paths = Inr lib \<Longrightarrow>
   load_bibliography U fs parse paths = resolve_crossrefs (build_entries U lib)"
  by (simp add: load_bibliography_def)

text \<open>Once the files are read and parsed, the loader returns: no subscript fails.\<close>

lemma load_bibliography_total:
  assumes "read_library fs parse paths = Inr lib"
  shows "\<exists>loaded. load_bibliography U fs parse paths = Inr loaded"
proof -
  have "\<forall>e\<in>set (build_entries U lib). map_of e (str ''_key'') \<noteq> None"
    using build_entry_has_key by (auto simp: build_entries_def)
  from entry_map_total [OF this, of 0 "[]"] show ?thesis
    by (auto simp: load_bibliography_Inr [OF assms] resolve_crossrefs_def entry_map_def)
qed

text \<open>The definitions unfolded to run the loader on a concrete library.\<close>

lemmas load_defs = load_bibliography_def read_library_def build_entries_def build_entry_def
  resolve_crossrefs_def entry_map_def getitem_def crossref_step_def inherit_def inherit_field_def
  dict_get_def strip_def isspace_def latin1_def str_def

lemma paper_loaded:
  "load_bibliography latin1 (\<lambda>p. Some []) (\<lambda>t. Inr paper_library) [str ''mtg.bib''] =
     Inr [[(str ''_type'', str ''inproceedings''), (str ''_key'', str ''paper''),
           (str ''crossref'', str ''acl''), (str ''title'', str ''A Paper''),
           (str ''booktitle'', str ''Proc. ACL''), (str ''year'', str ''2020'')],
          [(str ''_type'', str ''proceedings''), (str ''_key'', str ''acl''),
           (str ''booktitle'', str ''Proc. ACL''), (str ''year'', str ''2020'')]]"
  by (simp add: paper_library_def load_defs)

lemma chain_built:
  "build_entries latin1 chain_library =
     [[(str ''_type'', str ''proceedings''), (str ''_key'', str ''series''),
       (str ''year'', str ''2020'')],
      [(str ''_type'', str ''proceedings''), (str ''_key'', str ''acl''),
       (str ''crossref'', str ''series''), (str ''booktitle'', str ''Proc. ACL'')],
      [(str ''_type'', str ''inproceedings''), (str ''_key'', str ''paper''),
       (str ''crossref'', str ''acl''), (str ''title'', str ''A Paper'')]]"
  by (simp add: chain_library_def load_defs)

lemma chain_loaded:
  "load_bibliography latin1 (\<lambda>p. Some []) (\<lambda>t. Inr chain_library) [str ''mtg.bib''] =
     Inr [[(str ''_type'', str ''proceedings''), (str ''_key'', str ''series''),
           (str ''year'', str ''2020'')],
          [(str ''_type'', str ''proceedings''), (str ''_key'', str ''acl''),
           (str ''crossref'', str ''series''), (str ''booktitle'', str ''Proc. ACL''),
           (str ''year'', str ''2020'')],
          [(str ''_type'', str ''inproceedings''), (str ''_key'', str ''paper''),
           (str ''crossref'', str ''acl''), (str ''title'', str ''A Paper''),
           (str ''booktitle'', str ''Proc. ACL''), (str ''year'', str ''2020'')]]"
  by (simp add: chain_library_def load_defs)

lemma read_library_const: "read_library (\<lambda>p. Some []) (\<lambda>t. Inr lib) [p] = Inr lib"
  by (simp add: read_library_def)

text \<open>
  C1 (as the code has it). After \<open>load_bibliography\<close> has returned, take an entry whose
  \<open>crossref\<close> field, stripped, is the key of an entry of the collection (the last one with that
  key). A reserved field (one that starts with an underscore) of the entry is as it was built.
  A field that the entry had with a non-empty value is unchanged. A field that was absent
  or empty on the entry and is present on the parent has the parent's value. The parent is
  read as it stands when the pass reaches the child: a parent that comes later in the list,
  or the entry itself, is read as it was built, and a parent that comes earlier has been
  resolved already, so that it passes on what it inherited from its own parent.
\<close>

theorem crossref_inheritance:
  assumes lib: "read_library fs parse paths = Inr lib"
    and loaded: "load_bibliography U fs parse paths = Inr loaded"
    and m: "entry_map (build_entries U lib) = Inr m"
    and i: "i < length lib"
    and xref: "strip (dict_get (build_entries U lib ! i) (str ''crossref'') []) = xref_key"
              "xref_key \<noteq> []"
    and j: "map_of m xref_key = Some j"
  shows "map_of (loaded ! i) field =
     (let child = build_entries U lib ! i;
          parent = (if j < i then loaded ! j else build_entries U lib ! j)
      in if startswith field (str ''_'') then map_of child field
         else if map_of child field = None \<or> map_of child field = Some []
              then (case map_of parent field of None \<Rightarrow> map_of child field | Some v \<Rightarrow> Some v)
         else map_of child field)"
proof -
  let ?es = "build_entries U lib"
  let ?K = "str ''_key''"
  from loaded have r: "resolve_crossrefs ?es = Inr loaded"
    by (simp add: load_bibliography_Inr [OF lib])
  have i': "i < length ?es" using i by (simp add: build_entries_def)
  have j': "j < length ?es" by (rule entry_map_in_range [OF m j])
  have d: "\<forall>e\<in>set ?es. distinct (map fst e)"
    by (auto simp: build_entries_def distinct_build_entry)
  let ?parent = "if j < i then loaded ! j else ?es ! j"
  have k: "map_of (?es ! j) ?K \<noteq> None"
    using j' by (simp add: build_entries_def build_entry_has_key)
  have "map_of (loaded ! j) ?K = map_of (?es ! j) ?K"
    by (rule resolve_reserved [OF r j']) (simp add: str_def)
  with k have "map_of ?parent ?K \<noteq> None" by simp
  then have ne: "?parent \<noteq> []" by auto
  have dp: "distinct (map fst ?parent)"
    using resolve_distinct [OF r d j'] d j' by simp
  have "loaded ! i = inherit (?es ! i) ?parent"
    using resolve_at [OF m r i'] xref j ne by (simp add: Let_def)
  then show ?thesis by (simp add: map_of_inherit [OF dp] Let_def)
qed

theorem crossref_inheritance_witness:
  "map_of
     ([[(str ''_type'', str ''inproceedings''), (str ''_key'', str ''paper''),
        (str ''crossref'', str ''acl''), (str ''title'', str ''A Paper''),
        (str ''booktitle'', str ''Proc. ACL''), (str ''year'', str ''2020'')],
       [(str ''_type'', str ''proceedings''), (str ''_key'', str ''acl''),
        (str ''booktitle'', str ''Proc. ACL''), (str ''year'', str ''2020'')]] ! 0)
     (str ''year'') = Some (str ''2020'')"
proof -
  have m: "entry_map (build_entries latin1 paper_library) = Inr [(str ''paper'', 0), (str ''acl'', 1)]"
    by (simp add: paper_library_def load_defs)
  have x: "strip (dict_get (build_entries latin1 paper_library ! 0) (str ''crossref'') []) = str ''acl''"
    by (simp add: paper_library_def load_defs)
  have i: "0 < length paper_library" by (simp add: paper_library_def)
  have n: "str ''acl'' \<noteq> []" by (simp add: str_def)
  have j: "map_of [(str ''paper'', 0), (str ''acl'', 1::nat)] (str ''acl'') = Some 1"
    by (simp add: str_def)
  show ?thesis
    using crossref_inheritance [OF read_library_const paper_loaded m i x n j, of "str ''year''"]
    by (simp add: paper_library_def load_defs)
qed

text \<open>
  C1 (as the specification words it) fails where it says that a chain of cross-references
  is not followed: in the library \<open>chain_library\<close> the entry \<open>acl\<close> is built without a year,
  it comes before the entry \<open>paper\<close> that refers to it, and \<open>paper\<close> is loaded with the year
  of \<open>series\<close>, the parent of its parent.
\<close>

theorem crossref_chain_counterexample:
  "map_of (build_entries latin1 chain_library ! 1) (str ''year'') = None
   \<and> load_bibliography latin1 (\<lambda>p. Some []) (\<lambda>t. Inr chain_library) [str ''mtg.bib''] =
     Inr [[(str ''_type'', str ''proceedings''), (str ''_key'', str ''series''),
           (str ''year'', str ''2020'')],
          [(str ''_type'', str ''proceedings''), (str ''_key'', str ''acl''),
           (str ''crossref'', str ''series''), (str ''booktitle'', str ''Proc. ACL''),
           (str ''year'', str ''2020'')],
          [(str ''_type'', str ''inproceedings''), (str ''_key'', str ''paper''),
           (str ''crossref'', str ''acl''), (str ''title'', str ''A Paper''),
           (str ''booktitle'', str ''Proc. ACL''), (str ''year'', str ''2020'')]]"
  by (simp add: chain_library_def load_defs)

text \<open>
  C10. The crossref pass keeps the number of entries, and for every loaded entry the fields
  \<open>_type\<close> and \<open>_key\<close>, like every field that starts with an underscore, are after the pass
  what they were before it; a field that the entry had with a non-empty value keeps that
  value.
\<close>

theorem crossref_frame:
  assumes lib: "read_library fs parse paths = Inr lib"
    and loaded: "load_bibliography U fs parse paths = Inr loaded"
    and i: "i < length lib"
  shows "length loaded = length lib
    \<and> map_of (loaded ! i) (str ''_type'') = map_of (build_entries U lib ! i) (str ''_type'')
    \<and> map_of (loaded ! i) (str ''_key'') = map_of (build_entries U lib ! i) (str ''_key'')
    \<and> (startswith field (str ''_'') \<longrightarrow>
         map_of (loaded ! i) field = map_of (build_entries U lib ! i) field)
    \<and> (\<forall>v. map_of (build_entries U lib ! i) field = Some v \<and> v \<noteq> [] \<longrightarrow>
         map_of (loaded ! i) field = Some v)"
proof -
  let ?es = "build_entries U lib"
  from loaded have r: "resolve_crossrefs ?es = Inr loaded"
    by (simp add: load_bibliography_Inr [OF lib])
  have i': "i < length ?es" using i by (simp add: build_entries_def)
  have "length loaded = length lib"
    using resolve_length [OF r] by (simp add: build_entries_def)
  moreover have "map_of (loaded ! i) (str ''_type'') = map_of (?es ! i) (str ''_type'')"
    by (rule resolve_reserved [OF r i']) (simp add: str_def)
  moreover have "map_of (loaded ! i) (str ''_key'') = map_of (?es ! i) (str ''_key'')"
    by (rule resolve_reserved [OF r i']) (simp add: str_def)
  moreover have "startswith field (str ''_'') \<longrightarrow> map_of (loaded ! i) field = map_of (?es ! i) field"
    using resolve_reserved [OF r i'] by blast
  moreover have "\<forall>v. map_of (?es ! i) field = Some v \<and> v \<noteq> [] \<longrightarrow> map_of (loaded ! i) field = Some v"
    using resolve_keeps [OF r i'] by blast
  ultimately show ?thesis by blast
qed

theorem crossref_frame_witness:
  "map_of
     ([[(str ''_type'', str ''proceedings''), (str ''_key'', str ''series''),
        (str ''year'', str ''2020'')],
       [(str ''_type'', str ''proceedings''), (str ''_key'', str ''acl''),
        (str ''crossref'', str ''series''), (str ''booktitle'', str ''Proc. ACL''),
        (str ''year'', str ''2020'')],
       [(str ''_type'', str ''inproceedings''), (str ''_key'', str ''paper''),
        (str ''crossref'', str ''acl''), (str ''title'', str ''A Paper''),
        (str ''booktitle'', str ''Proc. ACL''), (str ''year'', str ''2020'')]] ! 2)
     (str ''title'') = Some (str ''A Paper'')"
proof -
  have i: "2 < length chain_library" by (simp add: chain_library_def)
  show ?thesis
    using crossref_frame [OF read_library_const chain_loaded i, of "str ''title''"]
    by (simp add: chain_built) (simp add: str_def)
qed
section \<open>Properties of the author filter\<close>

lemma contains_Nil: "contains [] s"
  by (cases s) simp_all

lemma get_author_editor:
  "get e [str ''author'', str ''editor''] [] =
     (if strip (dict_get e (str ''author'') []) \<noteq> [] then strip (dict_get e (str ''author'') [])
      else strip (dict_get e (str ''editor'') []))"
  by (simp add: Let_def)

text \<open>
  C5. For every list of entries and every filter text, the entries that the filtering step of
  \<open>render_bibliography\<close> retains are entries of the unfiltered list, so their citation keys are
  keys of the unfiltered list, and for every retained entry the filter matches, without regard
  to case, the author field, or the editor field when the entry has no author; as everywhere
  in the renderer, a field is read through \<open>_get\<close>, so it is stripped and a blank field
  counts as absent. The hypothesis is a fact of the runtime: the lower case of the empty
  string is empty.
\<close>

theorem author_filter_subset:
  assumes "str_lower U [] = []"
  shows "set (visible U entries (Some f)) \<subseteq> set (visible U entries None)
    \<and> (\<lambda>e. dict_get e (str ''_key'') []) ` set (visible U entries (Some f))
        \<subseteq> (\<lambda>e. dict_get e (str ''_key'') []) ` set (visible U entries None)
    \<and> (\<forall>e\<in>set (visible U entries (Some f)).
          author_matches U
            (if strip (dict_get e (str ''author'') []) \<noteq> [] then strip (dict_get e (str ''author'') [])
             else strip (dict_get e (str ''editor'') [])) f)"
proof -
  have 1: "set (visible U entries (Some f)) \<subseteq> set (visible U entries None)"
    by (auto simp: visible_def)
  have 2: "author_matches U (get e [str ''author'', str ''editor''] []) f"
    if "e \<in> set (visible U entries (Some f))" for e
  proof (cases "f = []")
    case True
    then show ?thesis using assms by (simp add: author_matches_def contains_Nil)
  next
    case False
    with that show ?thesis by (simp add: visible_def)
  qed
  from 1 2 show ?thesis unfolding get_author_editor by blast
qed

theorem author_filter_subset_witness:
  "visible latin1 bond_entries (Some (str ''bond'')) = [bond_entries ! 0]
   \<and> author_matches latin1 (str ''Bond, Francis and Baldwin, Timothy'') (str ''bond'')"
proof -
  have l: "str_lower latin1 [] = []" by (simp add: latin1_def)
  have v: "visible latin1 bond_entries (Some (str ''bond'')) = [bond_entries ! 0]"
    by (simp add: visible_def bond_entries_def author_matches_def latin1_def str_def
        dict_get_def strip_def isspace_def)
  have a: "strip (dict_get (bond_entries ! 0) (str ''author'') []) = str ''Bond, Francis and Baldwin, Timothy''"
    by (simp add: bond_entries_def str_def dict_get_def strip_def isspace_def)
  have n: "str ''Bond, Francis and Baldwin, Timothy'' \<noteq> []" by (simp add: str_def)
  show ?thesis
    using author_filter_subset [OF l, of bond_entries "str ''bond''"] v a n by simp
qed
section \<open>Properties of the year sections\<close>

subsection \<open>Sorting in reverse\<close>

lemma decorate_Inr:
  "decorate key xs = Inr kxs \<Longrightarrow> map fst kxs = xs \<and> (\<forall>p\<in>set kxs. key (fst p) = Inr (snd p))"
proof (induction xs arbitrary: kxs)
  case Nil
  then show ?case by simp
next
  case (Cons x xs)
  from Cons.prems obtain k r where k: "key x = Inr k" and r: "decorate key xs = Inr r"
    and kxs: "kxs = (x, k) # r"
    by (auto split: sum.splits)
  from Cons.IH [OF r] k kxs show ?case by simp
qed



lemma sorted_reverse_Inr:
  assumes "sorted_reverse key xs = Inr ys"
  shows "mset ys = mset xs"
    and "\<forall>x\<in>set xs. \<exists>k. key x = Inr k"
    and "\<And>i j. i < j \<Longrightarrow> j < length ys \<Longrightarrow>
           \<exists>ki kj. key (ys ! i) = Inr ki \<and> key (ys ! j) = Inr kj \<and> kj \<le> ki"
    and "\<And>k. filter (\<lambda>y. key y = Inr k) ys = filter (\<lambda>y. key y = Inr k) xs"
proof -
  from assms obtain kxs where d: "decorate key xs = Inr kxs"
    and ys: "ys = map fst (sort_key (\<lambda>p. - snd p) kxs)"
    by (auto simp: sorted_reverse_def split: sum.splits)
  let ?s = "sort_key (\<lambda>p. - snd p) kxs"
  from decorate_Inr [OF d] have fst: "map fst kxs = xs"
    and key: "\<And>p. p \<in> set kxs \<Longrightarrow> key (fst p) = Inr (snd p)" by auto
  have "mset ys = image_mset fst (mset ?s)" by (simp add: ys)
  also have "\<dots> = mset (map fst kxs)" by simp
  finally show "mset ys = mset xs" by (simp add: fst)
  show "\<forall>x\<in>set xs. \<exists>k. key x = Inr k"
  proof
    fix x assume "x \<in> set xs"
    then obtain p where "p \<in> set kxs" "x = fst p" unfolding fst [symmetric] by auto
    then show "\<exists>k. key x = Inr k" using key by blast
  qed
  have keys: "key (fst p) = Inr (snd p)" if "p \<in> set ?s" for p
    using that key by simp
  have srt: "sorted (map (\<lambda>p. - snd p) ?s)" by (rule sorted_sort_key)
  show "\<exists>ki kj. key (ys ! i) = Inr ki \<and> key (ys ! j) = Inr kj \<and> kj \<le> ki"
    if "i < j" "j < length ys" for i j
  proof -
    from that have j: "j < length ?s" and i: "i < length ?s" by (simp_all add: ys)
    have "map (\<lambda>p. - snd p) ?s ! i \<le> map (\<lambda>p. - snd p) ?s ! j"
      using srt that(1) j by (simp add: sorted_iff_nth_mono)
    then have "snd (?s ! j) \<le> snd (?s ! i)" using i j by simp
    moreover have "key (fst (?s ! i)) = Inr (snd (?s ! i))" by (rule keys, rule nth_mem, rule i)
    then have "key (ys ! i) = Inr (snd (?s ! i))" using i by (simp add: ys)
    moreover have "key (fst (?s ! j)) = Inr (snd (?s ! j))" by (rule keys, rule nth_mem, rule j)
    then have "key (ys ! j) = Inr (snd (?s ! j))" using j by (simp add: ys)
    ultimately show ?thesis by blast
  qed
  show "filter (\<lambda>y. key y = Inr k) ys = filter (\<lambda>y. key y = Inr k) xs" for k
  proof -
    have a: "filter (\<lambda>y. key y = Inr k) (map fst l) = map fst (filter (\<lambda>p. - snd p = - k) l)"
      if "set l \<subseteq> set kxs" for l
      using that
    proof (induction l)
      case Nil
      then show ?case by simp
    next
      case (Cons p l)
      then have "key (fst p) = Inr (snd p)" using key by simp
      with Cons show ?case by simp
    qed
    have "filter (\<lambda>y. key y = Inr k) ys = map fst (filter (\<lambda>p. - snd p = - k) ?s)"
      unfolding ys by (rule a) simp
    also have "\<dots> = map fst (filter (\<lambda>p. - snd p = - k) kxs)"
      by (simp only: sort_key_stable)
    also have "\<dots> = filter (\<lambda>y. key y = Inr k) (map fst kxs)"
      by (rule a [symmetric]) simp
    finally show ?thesis by (simp add: fst)
  qed
qed

subsection \<open>The years of the visible entries\<close>

lemma map_fst_setitem:
  "map fst (setitem k v d) = (if k \<in> fst ` set d then map fst d else map fst d @ [k])"
proof (induction d)
  case Nil
  then show ?case by simp
next
  case (Cons p d)
  obtain k' v' where p: "p = (k', v')" by (cases p)
  show ?case
  proof (cases "k' = k")
    case True
    then show ?thesis by (simp add: p)
  next
    case False
    then show ?thesis using Cons by (simp add: p)
  qed
qed

text \<open>The list of the elements of \<open>xs\<close> in the order of their first occurrence.\<close>

lemma first_occurrences:
  "foldl (\<lambda>ks y. if y \<in> set ks then ks else ks @ [y]) [] xs = rev (remdups (rev xs))"
  by (induction xs rule: rev_induct) simp_all

lemma by_year_keys_from:
  "map fst (foldl (\<lambda>d e. (let year = get e [str ''year''] (str ''undated'')
                          in setitem year (dict_get d year [] @ [e]) d)) d0 vis) =
   foldl (\<lambda>ks y. if y \<in> set ks then ks else ks @ [y]) (map fst d0)
     (map (\<lambda>e. get e [str ''year''] (str ''undated'')) vis)"
  by (induction vis arbitrary: d0) (simp_all add: Let_def map_fst_setitem)

lemma by_year_keys:
  "map fst (by_year vis) = rev (remdups (rev (map (\<lambda>e. get e [str ''year''] (str ''undated'')) vis)))"
  unfolding by_year_def by (simp add: by_year_keys_from first_occurrences del: get.simps)

text \<open>The sections of the output are joined in the order of the list \<open>years\<close>.\<close>

lemma render_bibliography_sections:
  assumes "render_bibliography U entries author_filter = Inr html"
  shows "\<exists>ys nav. years U (visible U entries author_filter) = Inr ys \<and> nav_html U ys = Inr nav
           \<and> html = nav @ [0x0A, 0x0A] @ str ''<hr>'' @ [0x0A, 0x0A]
                @ join [0x0A, 0x0A, 0x0A]
                    (map (year_section (by_year (visible U entries author_filter))) ys)"
  using assms by (auto simp: render_bibliography_def Let_def split: sum.splits)

lemmas years_defs = years_def sorted_reverse_def year_key_def isdigit_def py_int_def by_year_def
  visible_def dict_get_def strip_def isspace_def latin1_def str_def Let_def

lemma dated_years:
  "years latin1 (visible latin1 dated_entries None) =
     Inr [str ''2021'', str ''2019'', str ''2005'', str ''undated'']"
  by (simp add: dated_entries_def years_defs)

text \<open>
  C3 (as the code has it). The year sections are the years of the visible entries, each once.
  They come by descending sort key, the key of a year being its value when \<open>isdigit\<close> accepts
  it and \<open>0\<close> otherwise, the undated bucket included. Years with the same key keep the order
  of their first occurrence among the visible entries. The undated section therefore comes
  after every section whose year has a positive value; for the years 2019, 2021, none and
  2005 the order is 2021, 2019, 2005, undated. The second hypothesis is a fact of the runtime:
  the word \<open>undated\<close> does not consist of digits.
\<close>

theorem year_sections_order:
  assumes ys: "years U vis = Inr ys" and u: "\<not> isdigit U (str ''undated'')"
  shows "mset ys = mset (rev (remdups (rev (map (\<lambda>e. get e [str ''year''] (str ''undated'')) vis))))
    \<and> (\<forall>i j. i < j \<and> j < length ys \<longrightarrow>
          (\<exists>ki kj. year_key U (ys ! i) = Inr ki \<and> year_key U (ys ! j) = Inr kj \<and> kj \<le> ki))
    \<and> (\<forall>k. filter (\<lambda>y. year_key U y = Inr k) ys =
             filter (\<lambda>y. year_key U y = Inr k)
               (rev (remdups (rev (map (\<lambda>e. get e [str ''year''] (str ''undated'')) vis)))))
    \<and> (\<forall>i j k. i < length ys \<and> j < length ys \<and> ys ! j = str ''undated''
           \<and> year_key U (ys ! i) = Inr k \<and> 0 < k \<longrightarrow> i < j)"
proof -
  let ?first = "rev (remdups (rev (map (\<lambda>e. get e [str ''year''] (str ''undated'')) vis)))"
  from ys have s: "sorted_reverse (year_key U) ?first = Inr ys"
    by (simp add: years_def by_year_keys del: get.simps)
  note p = sorted_reverse_Inr [OF s]
  have desc: "\<exists>ki kj. year_key U (ys ! i) = Inr ki \<and> year_key U (ys ! j) = Inr kj \<and> kj \<le> ki"
    if "i < j" "j < length ys" for i j
    using p(3) that by blast
  have und: "i < j"
    if "i < length ys" "j < length ys" "ys ! j = str ''undated''" "year_key U (ys ! i) = Inr k" "0 < k"
    for i j k
  proof (rule ccontr)
    assume "\<not> i < j"
    moreover have "i \<noteq> j" using that u by (auto simp: year_key_def)
    ultimately have "j < i" by simp
    from desc [OF this that(1)] that u show False by (simp add: year_key_def)
  qed
  show ?thesis using p(1) p(4) desc und by blast
qed

theorem year_sections_order_witness:
  "years latin1 (visible latin1 dated_entries None) =
     Inr [str ''2021'', str ''2019'', str ''2005'', str ''undated'']
   \<and> mset [str ''2021'', str ''2019'', str ''2005'', str ''undated''] =
       mset (rev (remdups (rev (map (\<lambda>e. get e [str ''year''] (str ''undated''))
                                  (visible latin1 dated_entries None)))))"
proof -
  have u: "\<not> isdigit latin1 (str ''undated'')"
    by (simp add: isdigit_def latin1_def str_def)
  show ?thesis
    by (rule conjI [OF dated_years conjunct1 [OF year_sections_order [OF dated_years u]]])
qed

text \<open>
  C3 (as the specification words it) fails where it says that the undated section is last
  whatever the other years are: when the first visible entry has no year and later entries
  have the years \<open>forthcoming\<close> and \<open>0\<close>, all three keys are \<open>0\<close> and the undated section
  comes first.
\<close>

theorem undated_not_last_counterexample:
  "years latin1 (visible latin1 undated_first_entries None) =
     Inr [str ''undated'', str ''forthcoming'', str ''0'']"
  by (simp add: undated_first_entries_def years_defs)
section \<open>Years that are digits and no numbers\<close>





text \<open>
  C7 fails on the code for the rendering of the whole bibliography: \<open>isdigit\<close> accepts the
  superscript two U+00B2, \<open>int\<close> does not, and the sort key raises \<open>ValueError\<close> for an entry
  with that year.
\<close>

theorem superscript_year_raises:
  "render_bibliography latin1
     [[(str ''_type'', str ''misc''), (str ''_key'', str ''a''), (str ''year'', [0xB2])]] None
   = Inl ValueError"
  by (simp add: render_bibliography_def years_defs)
section \<open>Properties of the command line\<close>

text \<open>The definitions unfolded to render a concrete list of entries.\<close>

lemmas render_defs = render_bibliography_def years_defs nav_html_def year_section_def
  render_entry_def venue_html_def venue_of_type_def venue_links_def pages_def endswith_def
  format_name_list_def parse_names_def format_name_def match_and_def author_matches_def

lemma bond_loaded:
  "load_bibliography latin1 (\<lambda>p. Some []) (\<lambda>t. Inr bond_library) [str ''mtg.bib''] =
     Inr [[(str ''_type'', str ''article''), (str ''_key'', str ''bond:2005''),
           (str ''author'', str ''Bond, Francis''), (str ''title'', str ''A Title''),
           (str ''year'', str ''2005'')]]"
  by (simp add: bond_library_def load_defs)

lemma bond_rendered_all:
  "render_bibliography latin1
     [[(str ''_type'', str ''article''), (str ''_key'', str ''bond:2005''),
       (str ''author'', str ''Bond, Francis''), (str ''title'', str ''A Title''),
       (str ''year'', str ''2005'')]] None = Inr bond_html"
  by (simp add: render_defs bond_html_def)

lemma bond_rendered_bond:
  "render_bibliography latin1
     [[(str ''_type'', str ''article''), (str ''_key'', str ''bond:2005''),
       (str ''author'', str ''Bond, Francis''), (str ''title'', str ''A Title''),
       (str ''year'', str ''2005'')]] (Some (str ''Bond'')) = Inr bond_html"
  by (simp add: render_defs bond_html_def)

lemma bond_html_count: "count_sub (str ''<dt>'') bond_html = 0"
  by (simp add: count_sub_def bond_html_def str_def)

text \<open>
  C9 fails on the code: the script counts the occurrences of \<open><dt>\<close>, which the renderer
  never writes. For a library of one entry by Bond both files hold the page with that entry
  and both counts printed are \<open>0\<close>.
\<close>

theorem cli_counts_zero:
  "main latin1 (\<lambda>p. Some []) (\<lambda>t. Inr bond_library) [str ''bib2html.py'', str ''mtg.bib''] =
     Inr \<lparr>exit_status = 0,
          stdout = [Loading [str ''mtg.bib''], Loaded 1, Written, All_entries 0, Bond_entries 0],
          written = [(str ''bib_all.html'', bond_html), (str ''bib_bond.html'', bond_html)]\<rparr>"
  by (simp add: main_def bond_loaded bond_rendered_all bond_rendered_bond bond_html_count)
section \<open>The rendering depends on the contents of the entries only\<close>

text \<open>
  Two association lists are the same dict when they map the same keys to the same values,
  in whatever order the keys were inserted. Every read of an entry in the renderer goes
  through \<open>get\<close>, so the renderer cannot tell such lists apart.
\<close>

lemma dict_get_same: "map_of a = map_of b \<Longrightarrow> dict_get a k d = dict_get b k d"
  by (simp add: dict_get_def)

lemma get_same:
  assumes "map_of a = map_of b"
  shows "get a ks d = get b ks d"
proof -
  have dg: "dict_get a k d' = dict_get b k d'" for k d' using assms by (rule dict_get_same)
  show ?thesis by (induction ks) (simp_all add: dg Let_def)
qed

lemma pages_same:
  assumes "map_of a = map_of b"
  shows "pages a = pages b"
proof -
  have g: "get a ks d = get b ks d" for ks d using assms by (rule get_same)
  show ?thesis unfolding pages_def g by (rule refl)
qed

lemma venue_of_type_same:
  assumes "map_of a = map_of b"
  shows "venue_of_type a = venue_of_type b"
proof -
  have g: "get a ks d = get b ks d" for ks d using assms by (rule get_same)
  have dg: "dict_get a k d = dict_get b k d" for k d using assms by (rule dict_get_same)
  have p: "pages a = pages b" using assms by (rule pages_same)
  show ?thesis unfolding venue_of_type_def g dg p by (rule refl)
qed

lemma venue_links_same:
  assumes "map_of a = map_of b"
  shows "venue_links a = venue_links b"
proof -
  have g: "get a ks d = get b ks d" for ks d using assms by (rule get_same)
  show ?thesis unfolding venue_links_def g by (rule refl)
qed

lemma venue_html_same:
  assumes "map_of a = map_of b"
  shows "venue_html a = venue_html b"
proof -
  have g: "get a ks d = get b ks d" for ks d using assms by (rule get_same)
  have t: "venue_of_type a = venue_of_type b" using assms by (rule venue_of_type_same)
  have l: "venue_links a = venue_links b" using assms by (rule venue_links_same)
  show ?thesis unfolding venue_html_def g t l by (rule refl)
qed

lemma render_entry_same:
  assumes "map_of a = map_of b"
  shows "render_entry a = render_entry b"
proof -
  have g: "get a ks d = get b ks d" for ks d using assms by (rule get_same)
  have dg: "dict_get a k d = dict_get b k d" for k d using assms by (rule dict_get_same)
  have v: "venue_html a = venue_html b" using assms by (rule venue_html_same)
  show ?thesis unfolding render_entry_def g dg v by (rule refl)
qed

lemma filter_same:
  "list_all2 R xs ys \<Longrightarrow> (\<And>x y. R x y \<Longrightarrow> P x = P y) \<Longrightarrow>
   list_all2 R (filter P xs) (filter P ys)"
  by (induction rule: list_all2_induct) auto

lemma map_filter_same:
  "list_all2 R xs ys \<Longrightarrow> (\<And>x y. R x y \<Longrightarrow> P x = P y \<and> f x = f y) \<Longrightarrow>
   map f (filter P xs) = map f (filter P ys)"
  by (induction rule: list_all2_induct) auto

lemma map_same:
  "list_all2 R xs ys \<Longrightarrow> (\<And>x y. R x y \<Longrightarrow> f x = f y) \<Longrightarrow> map f xs = map f ys"
  by (induction rule: list_all2_induct) auto

lemma dict_get_setitem:
  "dict_get (setitem k v d) k' dflt = (if k' = k then v else dict_get d k' dflt)"
proof -
  have "map_of (setitem k v d) = (map_of d)(k \<mapsto> v)"
    by (induction d) (auto simp: fun_eq_iff)
  then show ?thesis by (simp add: dict_get_def)
qed

text \<open>The list of a year in \<open>by_year\<close> holds the visible entries of that year, in their order.\<close>

lemma by_year_from:
  "dict_get (foldl (\<lambda>d e. (let year = get e [str ''year''] (str ''undated'')
                             in setitem year (dict_get d year [] @ [e]) d)) d0 vis) y [] =
   dict_get d0 y [] @ filter (\<lambda>e. get e [str ''year''] (str ''undated'') = y) vis"
  by (induction vis arbitrary: d0) (simp_all add: Let_def dict_get_setitem del: get.simps)

lemma by_year_entries:
  "dict_get (by_year vis) y [] = filter (\<lambda>e. get e [str ''year''] (str ''undated'') = y) vis"
proof -
  have e: "dict_get ([] :: (pystr \<times> entry list) list) y [] = []" by (simp add: dict_get_def)
  show ?thesis unfolding by_year_def by_year_from e by simp
qed

lemma visible_same:
  assumes "list_all2 (\<lambda>a b. map_of a = map_of b) entries entries'"
  shows "list_all2 (\<lambda>a b. map_of a = map_of b) (visible U entries f) (visible U entries' f)"
proof (cases f)
  case None
  with assms show ?thesis by (simp add: visible_def)
next
  case (Some t)
  show ?thesis
  proof (cases "t = []")
    case True
    with Some assms show ?thesis by (simp add: visible_def)
  next
    case False
    have "list_all2 (\<lambda>a b. map_of a = map_of b)
            (filter (\<lambda>e. author_matches U (get e [str ''author'', str ''editor''] []) t) entries)
            (filter (\<lambda>e. author_matches U (get e [str ''author'', str ''editor''] []) t) entries')"
      using assms
    proof (rule filter_same)
      fix x y :: entry
      assume "map_of x = map_of y"
      then have "get x ks d = get y ks d" for ks d by (rule get_same)
      then show "author_matches U (get x [str ''author'', str ''editor''] []) t
               = author_matches U (get y [str ''author'', str ''editor''] []) t"
        by (simp only:)
    qed
    with Some False show ?thesis by (simp add: visible_def del: get.simps)
  qed
qed

text \<open>
  The result of \<open>render_bibliography\<close> does not depend on the order in which the fields of
  an entry were inserted: two lists of entries that are equal as lists of dicts, with the
  same filter, give the same result, error or string.
\<close>

lemma render_bibliography_same_dicts:
  assumes "list_all2 (\<lambda>a b. map_of a = map_of b) entries entries'"
  shows "render_bibliography U entries author_filter = render_bibliography U entries' author_filter"
proof -
  let ?vis = "visible U entries author_filter"
  let ?vis' = "visible U entries' author_filter"
  let ?year = "\<lambda>e. get e [str ''year''] (str ''undated'')"
  have v: "list_all2 (\<lambda>a b. map_of a = map_of b) ?vis ?vis'"
    using assms by (rule visible_same)
  have "map ?year ?vis = map ?year ?vis'"
    using v by (rule map_same) (rule get_same)
  then have keys: "map fst (by_year ?vis) = map fst (by_year ?vis')"
    by (simp only: by_year_keys)
  then have ys: "years U ?vis = years U ?vis'" by (simp only: years_def)
  have m: "map render_entry (filter (\<lambda>e. ?year e = y) ?vis)
        = map render_entry (filter (\<lambda>e. ?year e = y) ?vis')" for y
    using v
  proof (rule map_filter_same)
    fix a b :: entry
    assume h: "map_of a = map_of b"
    then have "get a ks d = get b ks d" for ks d by (rule get_same)
    moreover have "render_entry a = render_entry b" using h by (rule render_entry_same)
    ultimately show "(?year a = y) = (?year b = y) \<and> render_entry a = render_entry b"
      by (simp only:)
  qed
  have "year_section (by_year ?vis) y = year_section (by_year ?vis') y" for y
    unfolding year_section_def by_year_entries m [of y] by (rule refl)
  then have sec: "year_section (by_year ?vis) = year_section (by_year ?vis')" by (rule ext)
  show ?thesis unfolding render_bibliography_def Let_def ys sec by (rule refl)
qed
section \<open>The limit on integer string conversion\<close>

text \<open>
  Besides its arguments, \<open>render_bibliography\<close> reads the runtime: the tables of the Unicode
  database, which belong to the interpreter and are the same in every call, and
  \<open>sys.get_int_max_str_digits()\<close>, which \<open>int(y)\<close> consults in the sort key and in the
  navigation bar and which \<open>sys.set_int_max_str_digits\<close> changes while the program runs.
\<close>

subsection \<open>The errors of the rendering\<close>





subsection \<open>The part of the runtime that the rendering reads\<close>












section \<open>Properties of the name handling\<close>

subsection \<open>Joining\<close>




subsection \<open>Splitting\<close>








subsection \<open>Names\<close>






end
